theory Spec2Isabelle
  imports Main "HOL-Library.Multiset"
begin

section \<open>Data model of khal/controllers.py\<close>

text \<open>
  A \<^verbatim>\<open>datetime.date\<close> is modelled by its proleptic Gregorian ordinal, so that
  the order of dates is the order of integers. The dates are the ordinals from 1
  (\<^verbatim>\<open>date.min\<close>) to 3652059 (\<^verbatim>\<open>date.max\<close>, 31 December 9999). A
  \<^verbatim>\<open>datetime.datetime\<close> is the number of microseconds since midnight of ordinal 0.
\<close>

type_synonym date = int
type_synonym datetime = int

definition date_max :: date where
  "date_max = 3652059"

definition valid_date :: "date \<Rightarrow> bool" where
  "valid_date d = (0 < d \<and> d \<le> date_max)"

definition time_min :: int where
  "time_min = 0"

definition time_max :: int where
  "time_max = 86399999999"

definition combine :: "date \<Rightarrow> int \<Rightarrow> datetime" where
  "combine day t = day * 86400000000 + t"

text \<open>
  The ways in which the functions of this module end without returning: the
  \<^verbatim>\<open>assert\<close> of \<^verbatim>\<open>get_agenda\<close>, \<^verbatim>\<open>sys.exit(status)\<close>, the
  \<^verbatim>\<open>OverflowError\<close> of date arithmetic, the \<^verbatim>\<open>ValueError\<close> of
  \<^verbatim>\<open>textwrap.wrap\<close> and the \<^verbatim>\<open>KeyError\<close> of a dictionary lookup.
\<close>

datatype error = AssertionError | SystemExit int | OverflowError | ValueError | KeyError

text \<open>
  \<^verbatim>\<open>date + datetime.timedelta(days=k)\<close>: the timedelta exists for at most 999999999
  days, and the sum must be a date; otherwise \<^verbatim>\<open>OverflowError\<close> is raised.
\<close>

definition add_days :: "date \<Rightarrow> int \<Rightarrow> error + date" where
  "add_days d k =
     (if 999999999 < \<bar>k\<bar> then Inl OverflowError
      else if 0 < d + k \<and> d + k \<le> date_max then Inr (d + k)
      else Inl OverflowError)"

text \<open>
  \<^verbatim>\<open>click.style(text, bold=b)\<close> and \<^verbatim>\<open>terminal.colored(text, color)\<close> return the
  text wrapped in terminal escape codes; the model keeps the text and its attribute apart.
\<close>

datatype line = style string bool | colored string string

text \<open>
  An \<^verbatim>\<open>Event\<close> as far as this module reads it: its start instant, its colour, the
  calendar it belongs to, its href, and the results of its methods
  \<^verbatim>\<open>compact(day)\<close> and \<^verbatim>\<open>long()\<close>.
\<close>

record event =
  start :: datetime
  color :: string
  calendar :: string
  href :: string
  compact :: "date \<Rightarrow> string"
  long :: string

text \<open>
  The \<^verbatim>\<open>CalendarCollection\<close>: its two queries, the name of its default calendar and
  the path of each calendar (\<^verbatim>\<open>_calnames[name].path\<close>).
\<close>

record collection =
  get_allday_by_time_range :: "date \<Rightarrow> event list"
  get_datetime_by_time_range :: "datetime \<Rightarrow> datetime \<Rightarrow> event list"
  default_calendar_name :: string
  calnames_path :: "string \<rightharpoonup> string"

text \<open>
  The functions of the standard library and of khal's other modules that
  \<^verbatim>\<open>construct_daynames\<close> and \<^verbatim>\<open>get_agenda\<close> call: the clock
  (\<^verbatim>\<open>datetime.date.today()\<close>, taken to give the same day throughout a call),
  \<^verbatim>\<open>date.strftime\<close>, \<^verbatim>\<open>aux.datefstr\<close> (\<open>Inl\<close> carries the message of the
  \<^verbatim>\<open>aux.InvalidDate\<close> it raises) and the regular expression
  \<^verbatim>\<open>TextWrapper.wordsep_re\<close> of \<^verbatim>\<open>textwrap\<close>, which decides where a text is
  cut: \<open>wordsep_re_pieces\<close> gives the lengths of the successive pieces. The clock is
  taken to stand before \<^verbatim>\<open>date.max\<close>, so that the day after today exists.
\<close>

record env =
  today :: date
  strftime :: "date \<Rightarrow> string \<Rightarrow> string"
  datefstr :: "string \<Rightarrow> string \<Rightarrow> string \<Rightarrow> string + date"
  wordsep_re_pieces :: "string \<Rightarrow> nat list"

text \<open>The entries of the \<^verbatim>\<open>locale\<close> dictionary that this module reads.\<close>

record locale_conf =
  dateformat :: string
  longdateformat :: string
  encoding :: string

text \<open>An entry of \<^verbatim>\<open>dates\<close>: a \<^verbatim>\<open>datetime.date\<close> or a string still to be parsed.\<close>

datatype date_arg = Date date | DateString string

section \<open>textwrap.wrap\<close>

text \<open>
  \<^verbatim>\<open>textwrap.wrap(text, width)\<close> of the Python standard library (Lib/textwrap.py of
  CPython 3.11, class \<^verbatim>\<open>TextWrapper\<close> with its default options: tabs expanded,
  whitespace replaced and dropped, long words broken, also on hyphens, no limit on the
  number of lines, no indent), which \<^verbatim>\<open>get_agenda\<close> calls on every event
  description. A Python string is a list of characters, those of the code points below
  256; \<open>whitespace\<close> is \<^verbatim>\<open>textwrap._whitespace\<close>, \<open>isspace\<close> is
  \<^verbatim>\<open>str.isspace\<close> on one character, and \<open>strip s = []\<close> is the test
  \<^verbatim>\<open>s.strip() == ''\<close>.
\<close>

definition whitespace :: "char list" where
  "whitespace = [CHR 0x09, CHR 0x0A, CHR 0x0B, CHR 0x0C, CHR 0x0D, CHR '' '']"

definition isspace :: "char \<Rightarrow> bool" where
  "isspace c = (c \<in> set [CHR 0x09, CHR 0x0A, CHR 0x0B, CHR 0x0C, CHR 0x0D,
     CHR 0x1C, CHR 0x1D, CHR 0x1E, CHR 0x1F, CHR '' '', CHR 0x85, CHR 0xA0])"

definition strip :: "string \<Rightarrow> string" where
  "strip s = rev (dropWhile isspace (rev (dropWhile isspace s)))"

text \<open>
  \<^verbatim>\<open>str.expandtabs(tabsize)\<close>: a tab becomes the blanks up to the next tab stop, and
  the column starts again after a line feed or a carriage return.
\<close>

fun expandtabs :: "nat \<Rightarrow> nat \<Rightarrow> string \<Rightarrow> string" where
  "expandtabs tabsize column [] = []"
| "expandtabs tabsize column (ch # s) =
     (if ch = CHR 0x09 then
        (if tabsize > 0 then
           (let incr = tabsize - column mod tabsize
            in replicate incr CHR '' '' @ expandtabs tabsize (column + incr) s)
         else expandtabs tabsize column s)
      else ch # expandtabs tabsize
             (if ch = CHR 0x0A \<or> ch = CHR 0x0D then 0 else column + 1) s)"

text \<open>
  \<^verbatim>\<open>wordsep_re.split(text)\<close>: the pattern is one group around all its alternatives,
  so \<^verbatim>\<open>re.split\<close> returns the stretches between the matches and the matches
  themselves, in order: the text cut into consecutive pieces.
\<close>

fun cut :: "nat list \<Rightarrow> string \<Rightarrow> string list" where
  "cut [] s = [s]"
| "cut (n # ns) s = take n s # cut ns (drop n s)"

definition wordsep_re_split :: "env \<Rightarrow> string \<Rightarrow> string list" where
  "wordsep_re_split e text = cut (wordsep_re_pieces e text) text"

text \<open>
  \<^verbatim>\<open>_munge_whitespace\<close> and \<^verbatim>\<open>_split_chunks\<close>: tabs are expanded at tab size 8,
  every whitespace character becomes a blank, and the text is split by
  \<^verbatim>\<open>wordsep_re\<close>; the empty strings of the split are dropped.
\<close>

definition munge_whitespace :: "string \<Rightarrow> string" where
  "munge_whitespace text =
     map (\<lambda>c. if c \<in> set whitespace then CHR '' '' else c) (expandtabs 8 0 text)"

definition split_chunks :: "env \<Rightarrow> string \<Rightarrow> string list" where
  "split_chunks e text =
     filter (\<lambda>c. c \<noteq> []) (wordsep_re_split e (munge_whitespace text))"

text \<open>
  The slices \<^verbatim>\<open>s[:n]\<close> and \<^verbatim>\<open>s[n:]\<close> (a negative \<open>n\<close> counts from the end),
  and \<^verbatim>\<open>s.rfind(c, 0, n)\<close>: the last index of \<open>c\<close> in \<^verbatim>\<open>s[:n]\<close>, or -1.
\<close>

definition slice_to :: "int \<Rightarrow> 'a list \<Rightarrow> 'a list" where
  "slice_to n s = (if 0 \<le> n then take (nat n) s else take (length s - nat (- n)) s)"

definition slice_from :: "int \<Rightarrow> 'a list \<Rightarrow> 'a list" where
  "slice_from n s = (if 0 \<le> n then drop (nat n) s else drop (length s - nat (- n)) s)"

definition rfind :: "'a \<Rightarrow> 'a list \<Rightarrow> int \<Rightarrow> int" where
  "rfind c s n =
     (let p = slice_to n s
      in if c \<in> set p
         then int (length p) - 1 - int (length (takeWhile (\<lambda>x. x \<noteq> c) (rev p)))
         else - 1)"

text \<open>
  \<^verbatim>\<open>_handle_long_word\<close>, for the chunk on top of the stack and the chunks below it:
  the chunk is cut after the room left on the line, or after the last hyphen within that
  room when one follows a character that is not a hyphen; the head goes to the line and
  the tail stays on the stack.
\<close>

definition handle_long_word ::
    "string \<Rightarrow> string list \<Rightarrow> string list \<Rightarrow> nat \<Rightarrow> nat \<Rightarrow> string list \<times> string list" where
  "handle_long_word chunk rest cur_line cur_len width =
     (let space_left = (if width < 1 then 1 else int width - int cur_len);
          hyphen = rfind CHR ''-'' chunk space_left;
          n = (if int (length chunk) > space_left \<and> hyphen > 0 \<and>
                  (\<exists>c \<in> set (slice_to hyphen chunk). c \<noteq> CHR ''-'')
               then hyphen + 1 else space_left)
      in (slice_from n chunk # rest, cur_line @ [slice_to n chunk]))"

text \<open>
  The inner loop of \<^verbatim>\<open>_wrap_chunks\<close>: chunks move to the current line as long as
  they fit. The chunks are kept in text order, the next chunk first (the source reverses
  the list and pops from its end).
\<close>

fun fill_line ::
    "nat \<Rightarrow> string list \<Rightarrow> string list \<Rightarrow> nat \<Rightarrow> string list \<times> string list \<times> nat" where
  "fill_line width [] cur_line cur_len = ([], cur_line, cur_len)"
| "fill_line width (c # chunks) cur_line cur_len =
     (if cur_len + length c \<le> width
      then fill_line width chunks (cur_line @ [c]) (cur_len + length c)
      else (c # chunks, cur_line, cur_len))"

text \<open>
  The body of the outer loop of \<^verbatim>\<open>_wrap_chunks\<close>, entered with chunks left;
  \<open>started\<close> tells whether \<open>lines\<close> is non-empty. A whitespace chunk at the start of
  a line after the first is dropped, the line is filled, a chunk too long for any line is
  broken, and a whitespace chunk at the end of the line is dropped. The result is the
  chunks left and the chunks of the line.
\<close>

definition wrap_line :: "nat \<Rightarrow> bool \<Rightarrow> string list \<Rightarrow> string list \<times> string list" where
  "wrap_line width started chunks =
     (let chunks1 = (if strip (hd chunks) = [] \<and> started then tl chunks else chunks);
          (chunks2, cur_line, cur_len) = fill_line width chunks1 [] 0;
          (chunks3, cur_line3) =
            (case chunks2 of
               [] \<Rightarrow> (chunks2, cur_line)
             | chunk # rest \<Rightarrow>
                 if length chunk > width
                 then handle_long_word chunk rest cur_line cur_len width
                 else (chunks2, cur_line));
          cur_line4 = (if cur_line3 \<noteq> [] \<and> strip (last cur_line3) = []
                       then butlast cur_line3 else cur_line3)
      in (chunks3, cur_line4))"

text \<open>
  Every pass of the outer loop takes a chunk, or at least a character of a chunk, off the
  stack: the measure under which the loop terminates.
\<close>

definition chunks_size :: "string list \<Rightarrow> nat" where
  "chunks_size chunks = sum_list (map length chunks) + length chunks"

lemma fill_line_suffix:
  "\<exists>k. fst (fill_line width chunks cur_line cur_len) = drop k chunks"
proof (induction chunks arbitrary: cur_line cur_len)
  case Nil
  then show ?case by simp
next
  case (Cons c chunks)
  show ?case
  proof (cases "cur_len + length c \<le> width")
    case True
    from Cons.IH [of "cur_line @ [c]" "cur_len + length c"]
    obtain k where "fst (fill_line width chunks (cur_line @ [c]) (cur_len + length c)) = drop k chunks"
      by blast
    then have "fst (fill_line width (c # chunks) cur_line cur_len) = drop (Suc k) (c # chunks)"
      using True by simp
    then show ?thesis by blast
  next
    case False
    then have "fst (fill_line width (c # chunks) cur_line cur_len) = drop 0 (c # chunks)"
      by simp
    then show ?thesis by blast
  qed
qed

lemma chunks_size_drop: "chunks_size (drop k chunks) \<le> chunks_size chunks"
proof (induction chunks arbitrary: k)
  case Nil
  then show ?case by simp
next
  case (Cons c chunks)
  show ?case
  proof (cases k)
    case 0
    then show ?thesis by simp
  next
    case (Suc j)
    have "chunks_size (drop j chunks) \<le> chunks_size chunks" by (rule Cons.IH)
    then show ?thesis using Suc by (simp add: chunks_size_def)
  qed
qed

lemma fill_line_size:
  "chunks_size (fst (fill_line width chunks cur_line cur_len)) \<le> chunks_size chunks"
  using fill_line_suffix [of width chunks cur_line cur_len] chunks_size_drop by metis

lemma handle_long_word_size:
  "chunks_size (fst (handle_long_word chunk rest cur_line cur_len width))
     \<le> chunks_size (chunk # rest)"
  by (simp add: handle_long_word_def Let_def chunks_size_def slice_from_def)

lemma handle_long_word_size_less:
  assumes "length chunk > width"
  shows "chunks_size (fst (handle_long_word chunk rest cur_line 0 width))
     < chunks_size (chunk # rest)"
proof -
  have ne: "chunk \<noteq> []" using assms by auto
  have "(0::nat) < length chunk" using ne by simp
  then show ?thesis
    using assms
    by (auto simp add: handle_long_word_def Let_def chunks_size_def slice_from_def)
qed

lemma wrap_line_after_fill:
  "chunks_size (fst (case chunks2 of
               [] \<Rightarrow> (chunks2, cur_line)
             | chunk # rest \<Rightarrow>
                 if length chunk > width
                 then handle_long_word chunk rest cur_line cur_len width
                 else (chunks2, cur_line))) \<le> chunks_size chunks2"
  using handle_long_word_size by (cases chunks2) auto

lemma fill_line_head_fits:
  assumes "length c \<le> width"
  shows "chunks_size (fst (fill_line width (c # chunks) [] 0)) < chunks_size (c # chunks)"
proof -
  have "chunks_size (fst (fill_line width chunks ([] @ [c]) (0 + length c))) \<le> chunks_size chunks"
    by (rule fill_line_size)
  then show ?thesis using assms by (simp add: chunks_size_def)
qed

lemma wrap_line_fst:
  "fst (wrap_line width started chunks) =
     fst (let chunks1 = (if strip (hd chunks) = [] \<and> started then tl chunks else chunks);
          (chunks2, cur_line, cur_len) = fill_line width chunks1 [] 0
      in (case chunks2 of
               [] \<Rightarrow> (chunks2, cur_line)
             | chunk # rest \<Rightarrow>
                 if length chunk > width
                 then handle_long_word chunk rest cur_line cur_len width
                 else (chunks2, cur_line)))"
  by (simp add: wrap_line_def Let_def split: prod.splits)

lemma wrap_line_size_less:
  assumes "chunks \<noteq> []"
  shows "chunks_size (fst (wrap_line width started chunks)) < chunks_size chunks"
proof (cases "strip (hd chunks) = [] \<and> started")
  case True
  obtain chunks2 cur_line cur_len where f: "fill_line width (tl chunks) [] 0 = (chunks2, cur_line, cur_len)"
    by (cases "fill_line width (tl chunks) [] 0") auto
  have a: "chunks_size chunks2 \<le> chunks_size (tl chunks)"
    using fill_line_size [of width "tl chunks" "[]" 0] f by simp
  have b: "chunks_size (tl chunks) < chunks_size chunks"
    using assms by (cases chunks) (simp_all add: chunks_size_def)
  have "fst (wrap_line width started chunks) = fst (case chunks2 of
               [] \<Rightarrow> (chunks2, cur_line)
             | chunk # rest \<Rightarrow>
                 if length chunk > width
                 then handle_long_word chunk rest cur_line cur_len width
                 else (chunks2, cur_line))"
    using True f by (simp add: wrap_line_fst)
  then show ?thesis
    using wrap_line_after_fill [of chunks2 cur_line width cur_len] a b by simp
next
  case False
  obtain c rest where cs: "chunks = c # rest" using assms by (cases chunks) auto
  show ?thesis
  proof (cases "length c \<le> width")
    case True
    obtain chunks2 cur_line cur_len where f: "fill_line width chunks [] 0 = (chunks2, cur_line, cur_len)"
      by (cases "fill_line width chunks [] 0") auto
    have a: "chunks_size chunks2 < chunks_size chunks"
      using fill_line_head_fits [OF True, of rest] f cs by simp
    have "fst (wrap_line width started chunks) = fst (case chunks2 of
               [] \<Rightarrow> (chunks2, cur_line)
             | chunk # rest \<Rightarrow>
                 if length chunk > width
                 then handle_long_word chunk rest cur_line cur_len width
                 else (chunks2, cur_line))"
      using False f by (auto simp add: wrap_line_fst)
    then show ?thesis
      using wrap_line_after_fill [of chunks2 cur_line width cur_len] a by simp
  next
    case long: False
    have f: "fill_line width chunks [] 0 = (chunks, [], 0)"
      using long cs by simp
    have "fst (wrap_line width started chunks) = fst (handle_long_word c rest [] 0 width)"
      using False f long cs by (auto simp add: wrap_line_fst)
    then show ?thesis
      using handle_long_word_size_less [of width c rest "[]"] long cs by simp
  qed
qed

text \<open>The outer loop of \<^verbatim>\<open>_wrap_chunks\<close>: a line that is not empty is joined and kept.\<close>

function wrap_lines :: "nat \<Rightarrow> string list \<Rightarrow> string list \<Rightarrow> string list" where
  "wrap_lines width chunks lines =
     (if chunks = [] then lines
      else (let (chunks', cur_line) = wrap_line width (lines \<noteq> []) chunks
            in wrap_lines width chunks'
                 (if cur_line \<noteq> [] then lines @ [concat cur_line] else lines)))"
  by pat_completeness auto
termination
proof (relation "measure (\<lambda>(width, chunks, lines). chunks_size chunks)")
  show "wf (measure (\<lambda>(width, chunks, lines). chunks_size chunks))" by simp
next
  fix width :: nat and chunks lines :: "string list" and x chunks' cur_line
  assume ne: "chunks \<noteq> []" and x: "x = wrap_line width (lines \<noteq> []) chunks"
    and p: "(chunks', cur_line) = x"
  have "chunks' = fst (wrap_line width (lines \<noteq> []) chunks)"
    using x p by (metis fst_conv)
  then have "chunks_size chunks' < chunks_size chunks"
    using wrap_line_size_less [OF ne] by simp
  then show "((width, chunks', if cur_line \<noteq> [] then lines @ [concat cur_line] else lines),
              width, chunks, lines) \<in> measure (\<lambda>(width, chunks, lines). chunks_size chunks)"
    by simp
qed

declare wrap_lines.simps [simp del]

text \<open>
  \<^verbatim>\<open>_wrap_chunks\<close> and \<^verbatim>\<open>wrap\<close>: a width that is not positive raises
  \<^verbatim>\<open>ValueError\<close> before the loop is entered.
\<close>

definition wrap_chunks :: "int \<Rightarrow> string list \<Rightarrow> error + string list" where
  "wrap_chunks width chunks =
     (if width \<le> 0 then Inl ValueError else Inr (wrap_lines (nat width) chunks []))"

definition wrap :: "env \<Rightarrow> string \<Rightarrow> int \<Rightarrow> error + string list" where
  "wrap e text width = wrap_chunks width (split_chunks e text)"

section \<open>construct\_daynames\<close>

fun construct_daynames :: "env \<Rightarrow> date list \<Rightarrow> string \<Rightarrow> (date \<times> string) list" where
  "construct_daynames e [] fmt = []"
| "construct_daynames e (d # daylist) fmt =
     (if d = today e then (d, ''Today:'')
      else if d = today e + 1 then (d, ''Tomorrow:'')
      else (d, strftime e d fmt)) # construct_daynames e daylist fmt"

text \<open>The label rule in the words of the specification.\<close>

definition dayname_spec :: "env \<Rightarrow> string \<Rightarrow> date \<Rightarrow> string" where
  "dayname_spec e fmt d =
     (if d = today e then ''Today:''
      else if d = today e + 1 then ''Tomorrow:''
      else strftime e d fmt)"

section \<open>The expansion step of get\_agenda\<close>

text \<open>\<^verbatim>\<open>range(days)\<close>: empty when \<open>days \<le> 0\<close>.\<close>

definition range_py :: "int \<Rightarrow> int list" where
  "range_py n = map int [0..<nat n]"

text \<open>The values of a list of computations in order, or the first error raised.\<close>

fun collect :: "(error + 'a) list \<Rightarrow> error + 'a list" where
  "collect [] = Inr []"
| "collect (r # rs) =
     (case r of
        Inl err \<Rightarrow> Inl err
      | Inr x \<Rightarrow> (case collect rs of Inl err \<Rightarrow> Inl err | Inr xs \<Rightarrow> Inr (x # xs)))"

text \<open>
  Lines 99 to 101: the comprehension runs over the offsets in the outer loop and over the
  dates in the inner loop, and ends with the first \<^verbatim>\<open>OverflowError\<close> of an
  addition; \<^verbatim>\<open>list.sort\<close> on dates is the sort by value.
\<close>

definition expand_days :: "date list \<Rightarrow> int \<Rightarrow> error + date list" where
  "expand_days dates days =
     (case collect (concat (map (\<lambda>one. map (\<lambda>d. add_days d one) dates) (range_py days))) of
        Inl err \<Rightarrow> Inl err
      | Inr daylist \<Rightarrow> Inr (sort daylist))"

text \<open>
  The expansion in the words of the specification: for each date \<open>d\<close>, the days
  \<open>d, d + 1, \<dots>, d + n - 1\<close>.
\<close>

definition expand_spec :: "date list \<Rightarrow> int \<Rightarrow> date list" where
  "expand_spec dates n = concat (map (\<lambda>d. map (\<lambda>k. d + k) [0..n - 1]) dates)"

section \<open>get\_agenda\<close>

text \<open>
  Lines 85 to 96: no dates, or an empty list, stand for today; otherwise every entry that
  is not a date is parsed by \<^verbatim>\<open>aux.datefstr\<close>, in order, and the first
  \<^verbatim>\<open>InvalidDate\<close> ends the comprehension.
\<close>

fun parse_dates :: "env \<Rightarrow> locale_conf \<Rightarrow> date_arg list \<Rightarrow> string + date list" where
  "parse_dates e loc [] = Inr []"
| "parse_dates e loc (d # dates) =
     (case (case d of
              Date x \<Rightarrow> Inr x
            | DateString s \<Rightarrow> datefstr e s (dateformat loc) (longdateformat loc)) of
        Inl err \<Rightarrow> Inl err
      | Inr x \<Rightarrow>
          (case parse_dates e loc dates of
             Inl err \<Rightarrow> Inl err
           | Inr xs \<Rightarrow> Inr (x # xs)))"

definition resolve_dates ::
    "env \<Rightarrow> locale_conf \<Rightarrow> date_arg list option \<Rightarrow> string + date list" where
  "resolve_dates e loc dates =
     (case dates of
        None \<Rightarrow> Inr [today e]
      | Some ds \<Rightarrow> if length ds = 0 then Inr [today e] else parse_dates e loc ds)"

text \<open>
  Lines 117 to 119, the loop over the events of one day: each description is wrapped and
  one coloured line per segment is appended to \<open>event_column\<close>; a \<^verbatim>\<open>ValueError\<close>
  of \<^verbatim>\<open>textwrap.wrap\<close> ends it.
\<close>

fun extend_events ::
    "env \<Rightarrow> int \<Rightarrow> date \<Rightarrow> line list \<Rightarrow> event list \<Rightarrow> error + line list" where
  "extend_events e width day event_column [] = Inr event_column"
| "extend_events e width day event_column (ev # evs) =
     (case wrap e (compact ev day) width of
        Inl err \<Rightarrow> Inl err
      | Inr desc \<Rightarrow>
          extend_events e width day
            (event_column @ map (\<lambda>d. colored d (color ev)) desc) evs)"

text \<open>
  Lines 105 to 119, the loop over the labelled days. Its state is \<open>event_column\<close> and
  the variable \<open>events\<close>, which starts as the argument of that name and is assigned the
  timed events of each day, then sorted in place by start (\<^verbatim>\<open>list.sort\<close> is stable,
  as \<open>sort_key\<close> is).
\<close>

fun agenda_loop ::
    "env \<Rightarrow> collection \<Rightarrow> int \<Rightarrow> bool \<Rightarrow> line list \<times> event list option \<Rightarrow>
     (date \<times> string) list \<Rightarrow> error + line list" where
  "agenda_loop e c width show_all_days (event_column, events) [] = Inr event_column"
| "agenda_loop e c width show_all_days (event_column, events) ((day, dayname) # daylist) =
     (let start_dt = combine day time_min;
          end_dt = combine day time_max;
          all_day_events = get_allday_by_time_range c day;
          events = get_datetime_by_time_range c start_dt end_dt
      in if length events = 0 \<and> length all_day_events = 0 \<and> \<not> show_all_days
         then agenda_loop e c width show_all_days (event_column, Some events) daylist
         else
           (let event_column = event_column @ [style dayname True];
                events = sort_key start events
            in case extend_events e width day event_column (all_day_events @ events) of
                 Inl err \<Rightarrow> Inl err
               | Inr event_column \<Rightarrow>
                   agenda_loop e c width show_all_days (event_column, Some events) daylist))"

text \<open>Lines 82 and 83: the default of \<open>days\<close>.\<close>

definition default_days :: "int option \<Rightarrow> int" where
  "default_days days = (case days of None \<Rightarrow> 2 | Some n \<Rightarrow> n)"

text \<open>
  Lines 98 to 103: the expanded and labelled day list. After line 83 \<open>days\<close> is
  never \<^verbatim>\<open>None\<close>, so the test of line 98 always holds.
\<close>

definition labelled_days ::
    "env \<Rightarrow> locale_conf \<Rightarrow> date list \<Rightarrow> int \<Rightarrow> error + (date \<times> string) list" where
  "labelled_days e loc dates days =
     (case expand_days dates days of
        Inl err \<Rightarrow> Inl err
      | Inr daylist \<Rightarrow> Inr (construct_daynames e daylist (longdateformat loc)))"

text \<open>
  \<^verbatim>\<open>get_agenda\<close>, with the log of the process passed through: the result is the
  returned list or the way the call ended, and the log after the call.
\<close>

definition get_agenda ::
    "env \<Rightarrow> collection \<Rightarrow> locale_conf \<Rightarrow> date_arg list option \<Rightarrow> int option \<Rightarrow>
     event list option \<Rightarrow> int \<Rightarrow> bool \<Rightarrow> string list \<Rightarrow> (error + line list) \<times> string list" where
  "get_agenda e c loc dates days events width show_all_days logged =
     (if days \<noteq> None \<and> events \<noteq> None then (Inl AssertionError, logged)
      else
        (let days = default_days days
         in case resolve_dates e loc dates of
              Inl err \<Rightarrow> (Inl (SystemExit 1), logged @ [err])
            | Inr dates \<Rightarrow>
                (case labelled_days e loc dates days of
                   Inl err \<Rightarrow> (Inl err, logged)
                 | Inr daylist \<Rightarrow>
                     (case agenda_loop e c width show_all_days ([], events) daylist of
                        Inl err \<Rightarrow> (Inl err, logged)
                      | Inr event_column \<Rightarrow>
                          (Inr (if event_column = [] then [style ''No events'' True]
                                else event_column), logged)))))"

text \<open>
  The lines of one day in the words of the specification: nothing for a day without
  events unless all days are shown; otherwise the bold header, then the wrapped
  descriptions of the all-day events in source order, then those of the timed events
  sorted by start.
\<close>

definition event_lines :: "env \<Rightarrow> int \<Rightarrow> date \<Rightarrow> event \<Rightarrow> line list" where
  "event_lines e width day ev =
     (case wrap e (compact ev day) width of
        Inl err \<Rightarrow> []
      | Inr desc \<Rightarrow> map (\<lambda>d. colored d (color ev)) desc)"

definition day_block_spec ::
    "env \<Rightarrow> collection \<Rightarrow> int \<Rightarrow> bool \<Rightarrow> date \<times> string \<Rightarrow> line list" where
  "day_block_spec e c width show_all_days dn =
     (let day = fst dn;
          all_day_events = get_allday_by_time_range c day;
          events = get_datetime_by_time_range c (combine day time_min) (combine day time_max)
      in if events = [] \<and> all_day_events = [] \<and> \<not> show_all_days then []
         else style (snd dn) True #
                concat (map (event_lines e width day)
                  (all_day_events @ sort_key start events)))"

text \<open>A coloured line whose text is no longer than the width; headers are not wrapped.\<close>

definition fits :: "int \<Rightarrow> line \<Rightarrow> bool" where
  "fits width l = (case l of style t b \<Rightarrow> True | colored t col \<Rightarrow> int (length t) \<le> width)"

section \<open>NewFromString\<close>

text \<open>
  The collaborators of \<^verbatim>\<open>NewFromString\<close>: the free-text parser gives the parsed
  event, or the message of the parse error; \<^verbatim>\<open>Event(...)\<close> builds the event;
  \<^verbatim>\<open>collection.new\<close> gives the collection and the event after the write, or
  \<open>None\<close> when it raises \<^verbatim>\<open>ReadOnlyCalendarError\<close>; \<^verbatim>\<open>str.encode\<close>.
\<close>

record 'v aux =
  parse_event ::
    "string list \<Rightarrow> string option \<Rightarrow> string option \<Rightarrow> locale_conf \<Rightarrow> string + 'v"
  Event :: "'v \<Rightarrow> string \<Rightarrow> locale_conf \<Rightarrow> event"
  new :: "collection \<Rightarrow> event \<Rightarrow> (collection \<times> event) option"
  encode :: "string \<Rightarrow> string \<Rightarrow> string"

text \<open>\<^verbatim>\<open>conf['locale']\<close> and \<^verbatim>\<open>conf['default']['print_new']\<close>.\<close>

record conf =
  conf_locale :: locale_conf
  print_new :: string

text \<open>The state of the process: the collection, the log and what was echoed.\<close>

record process =
  store :: collection
  logged :: "string list"
  echoed :: "string list"

text \<open>
  Modelled from the spec: \<^verbatim>\<open>aux.construct_event\<close>, the free-text parser, is not among
  the sources. By sections 4.4 and 7 of the specification a parse error is reported
  through the log and is then fatal: \<open>construct_event\<close> appends the message of the error
  to the log and raises \<^verbatim>\<open>FatalError\<close> (\<open>None\<close>); otherwise it gives the parsed
  event and leaves the log as it is.
\<close>

definition construct_event ::
    "'v aux \<Rightarrow> string list \<Rightarrow> string option \<Rightarrow> string option \<Rightarrow> locale_conf \<Rightarrow>
     string list \<Rightarrow> 'v option \<times> string list" where
  "construct_event a date_list location repeat loc lg =
     (case parse_event a date_list location repeat loc of
        Inl msg \<Rightarrow> (None, lg @ [msg])
      | Inr parsed \<Rightarrow> (Some parsed, lg))"

text \<open>
  \<^verbatim>\<open>NewFromString.__init__\<close>: the result is the way the process ended (\<open>None\<close> when
  the constructor returned) and the state of the process.
\<close>

definition NewFromString ::
    "'v aux \<Rightarrow> conf \<Rightarrow> string list \<Rightarrow> string option \<Rightarrow> string option \<Rightarrow> process \<Rightarrow>
     error option \<times> process" where
  "NewFromString a cf date_list location repeat p =
     (case construct_event a date_list location repeat (conf_locale cf) (logged p) of
        (None, lg) \<Rightarrow> (Some (SystemExit 1), p\<lparr>logged := lg\<rparr>)
      | (Some parsed, lg) \<Rightarrow>
          (let p = p\<lparr>logged := lg\<rparr>;
               ev = Event a parsed (default_calendar_name (store p)) (conf_locale cf)
           in case new a (store p) ev of
                None \<Rightarrow>
                  (Some (SystemExit 1),
                   p\<lparr>logged := logged p @
                      [''ERROR: Cannot modify calendar '' @ [CHR 0x22] @
                       default_calendar_name (store p) @ [CHR 0x22] @
                       '' as it is read-only'']\<rparr>)
              | Some (c, ev) \<Rightarrow>
                  (let p = p\<lparr>store := c\<rparr>
                   in if print_new cf = ''event''
                      then (None, p\<lparr>echoed := echoed p @ [long ev]\<rparr>)
                      else if print_new cf = ''path''
                      then (case calnames_path c (calendar ev) of
                              None \<Rightarrow> (Some KeyError, p)
                            | Some path \<Rightarrow>
                                (None, p\<lparr>echoed := echoed p @
                                   [encode a (path @ href ev) (encoding (conf_locale cf))]\<rparr>))
                      else (None, p))))"

section \<open>An example calendar\<close>

text \<open>
  Concrete values on which the theorems below are evaluated. \<open>whitespace_runs\<close> cuts a
  text into its maximal runs of whitespace and of other characters, which is how
  \<^verbatim>\<open>wordsep_re\<close> splits a text in which no hyphen follows a letter or another
  hyphen, as in the descriptions used here. The calendar follows tests/cli\_test.py: one
  calendar \<open>one\<close>, the long date format \<^verbatim>\<open>%d.%m.%Y\<close>, and events on 9 April
  2014 (ordinal 735332, for which, and for the day after, \<open>strftime\<close> is given);
  today is a later day. The collection returns the all-day event on its day and the timed
  events that start within the interval asked for.
\<close>

fun whitespace_runs :: "string \<Rightarrow> string list" where
  "whitespace_runs [] = []"
| "whitespace_runs (c # s) =
     (case whitespace_runs s of
        [] \<Rightarrow> [[c]]
      | [] # rs \<Rightarrow> [c] # rs
      | (d # r) # rs \<Rightarrow>
          if (c \<in> set whitespace) = (d \<in> set whitespace) then (c # d # r) # rs
          else [c] # (d # r) # rs)"

definition example_env :: env where
  "example_env =
     \<lparr>today = 735600,
      strftime = (\<lambda>d fmt. if d = 735332 then ''09.04.2014'' else ''10.04.2014''),
      datefstr = (\<lambda>s fmt longfmt.
        if s = ''09.04.2014'' then Inr 735332 else Inl (''invalid date: '' @ s)),
      wordsep_re_pieces = (\<lambda>s. map length (whitespace_runs s))\<rparr>"

definition example_locale :: locale_conf where
  "example_locale =
     \<lparr>dateformat = ''%d.%m.'', longdateformat = ''%d.%m.%Y'', encoding = ''utf-8''\<rparr>"

definition an_event :: event where
  "an_event =
     \<lparr>start = combine 735332 34200000000, color = ''dark blue'', calendar = ''one'',
      href = ''test.ics'', compact = (\<lambda>day. ''09:30-10:30: An Event''),
      long = ''09:30-10:30 09.04.2014: An Event''\<rparr>"

definition early_event :: event where
  "early_event =
     \<lparr>start = combine 735332 28800000000, color = ''dark blue'', calendar = ''one'',
      href = ''early.ics'', compact = (\<lambda>day. ''08:00-09:00: Breakfast''),
      long = ''08:00-09:00 09.04.2014: Breakfast''\<rparr>"

definition other_event :: event where
  "other_event =
     \<lparr>start = combine 735332 34200000000, color = ''dark red'', calendar = ''one'',
      href = ''other.ics'', compact = (\<lambda>day. ''09:30-11:00: Another Event''),
      long = ''09:30-11:00 09.04.2014: Another Event''\<rparr>"

definition holiday :: event where
  "holiday =
     \<lparr>start = combine 735332 0, color = ''dark green'', calendar = ''one'',
      href = ''holiday.ics'', compact = (\<lambda>day. ''Holiday   ''),
      long = ''09.04.2014: Holiday   ''\<rparr>"

definition example_collection :: collection where
  "example_collection =
     \<lparr>get_allday_by_time_range = (\<lambda>day. if day = 735332 then [holiday] else []),
      get_datetime_by_time_range = (\<lambda>s t.
        filter (\<lambda>ev. s \<le> start ev \<and> start ev \<le> t) [an_event, other_event, early_event]),
      default_calendar_name = ''one'',
      calnames_path = [''one'' \<mapsto> ''/calendars/one/'']\<rparr>"


text \<open>A configuration, a process state, and a parser that understands nothing.\<close>

definition example_conf :: conf where
  "example_conf = \<lparr>conf_locale = example_locale, print_new = ''event''\<rparr>"

definition example_process :: process where
  "example_process = \<lparr>store = example_collection, logged = [], echoed = []\<rparr>"

definition failing_parser :: "string aux" where
  "failing_parser =
     \<lparr>parse_event = (\<lambda>date_list location repeat loc.
        Inl (''Cannot understand '' @ concat date_list)),
      Event = (\<lambda>parsed name loc. an_event),
      new = (\<lambda>c ev. Some (c, ev)),
      encode = (\<lambda>s enc. s)\<rparr>"

section \<open>Lemmas\<close>

subsection \<open>Day names and expansion\<close>

lemma construct_daynames_map:
  "construct_daynames e ds fmt = map (\<lambda>d. (d, dayname_spec e fmt d)) ds"
  by (induction ds) (simp_all add: dayname_spec_def)

lemma mset_concat_map_swap:
  "mset (concat (map (\<lambda>x. map (\<lambda>y. f y x) ys) xs)) =
   mset (concat (map (\<lambda>y. map (\<lambda>x. f y x) xs) ys))"
proof (induction xs)
  case Nil
  show ?case by (induction ys) simp_all
next
  case (Cons x xs)
  have step: "mset (concat (map (\<lambda>y. f y a # map (f y) as) ys)) =
      mset (map (\<lambda>y. f y a) ys) + mset (concat (map (\<lambda>y. map (f y) as) ys))"
    for a as
    by (induction ys) simp_all
  show ?case using Cons.IH by (simp add: step)
qed

lemma range_py_upto: "range_py n = [0..n - 1]"
proof -
  have "map int [0..<m] = [0..int m - 1]" for m
  proof (induction m)
    case 0
    then show ?case by simp
  next
    case (Suc m)
    have "[0..int (Suc m) - 1] = [0..int m - 1] @ [int m]"
      using upto_rec2 [of 0 "int m"] by simp
    then show ?case using Suc by simp
  qed
  from this [of "nat n"] show ?thesis
    by (cases "0 \<le> n") (simp_all add: range_py_def)
qed

lemma collect_map_Inr: "collect (map Inr xs) = Inr xs"
  by (induction xs) simp_all

lemma collect_Inr: "collect rs = Inr xs \<Longrightarrow> rs = map Inr xs"
proof (induction rs arbitrary: xs)
  case Nil
  then show ?case by simp
next
  case (Cons r rs)
  then show ?case by (auto split: sum.splits)
qed

lemma collect_Inl: "collect rs = Inl err \<Longrightarrow> Inl err \<in> set rs"
proof (induction rs)
  case Nil
  then show ?case by simp
next
  case (Cons r rs)
  then show ?case by (auto split: sum.splits)
qed

lemma collect_has_Inl: "Inl err \<in> set rs \<Longrightarrow> \<exists>err'. collect rs = Inl err'"
proof (induction rs)
  case Nil
  then show ?case by simp
next
  case (Cons r rs)
  then show ?case by (cases r) (auto split: sum.splits)
qed

lemma add_days_Inl: "add_days d k = Inl err \<Longrightarrow> err = OverflowError"
  by (simp add: add_days_def split: if_splits)

lemma add_days_valid:
  "valid_date d \<Longrightarrow> valid_date (d + k) \<Longrightarrow> add_days d k = Inr (d + k)"
  by (auto simp add: add_days_def valid_date_def date_max_def)

lemma add_days_invalid: "\<not> valid_date (d + k) \<Longrightarrow> add_days d k = Inl OverflowError"
  by (auto simp add: add_days_def valid_date_def)

lemma set_expand_spec:
  "set (expand_spec dates n) = {d + k | d k. d \<in> set dates \<and> 0 \<le> k \<and> k < n}"
proof
  have aux: "\<exists>d k. x = d + k \<and> d \<in> set dates \<and> 0 \<le> k \<and> k < n"
    if "xa \<in> set dates" "xa \<le> x" "x \<le> n - 1 + xa" for x xa
  proof -
    have "x = xa + (x - xa) \<and> xa \<in> set dates \<and> 0 \<le> x - xa \<and> x - xa < n"
      using that by simp
    then show ?thesis by blast
  qed
  show "set (expand_spec dates n) \<subseteq> {d + k | d k. d \<in> set dates \<and> 0 \<le> k \<and> k < n}"
    by (auto simp add: expand_spec_def intro: aux)
next
  show "{d + k | d k. d \<in> set dates \<and> 0 \<le> k \<and> k < n} \<subseteq> set (expand_spec dates n)"
  proof
    fix x
    assume "x \<in> {d + k | d k. d \<in> set dates \<and> 0 \<le> k \<and> k < n}"
    then obtain d k where "x = d + k" "d \<in> set dates" "0 \<le> k" "k < n" by blast
    then show "x \<in> set (expand_spec dates n)"
      by (auto simp add: expand_spec_def intro!: bexI [of _ d])
  qed
qed

lemma mset_offsets_dates:
  "mset (concat (map (\<lambda>one. map (\<lambda>d. d + one) dates) (range_py n))) =
   mset (expand_spec dates n)"
  unfolding expand_spec_def range_py_upto
  by (simp add: mset_concat_map_swap [of "\<lambda>d k. d + k"])

lemma expand_days_valid:
  assumes "list_all valid_date (expand_spec dates n)"
  shows "expand_days dates n = Inr (sort (expand_spec dates n))"
proof -
  have ok: "add_days d k = Inr (d + k)" if d: "d \<in> set dates" and k: "k \<in> set (range_py n)"
    for d k
  proof -
    have k': "0 \<le> k \<and> k < n" using k by (auto simp add: range_py_upto)
    then have "d + 0 \<in> set (expand_spec dates n)" "d + k \<in> set (expand_spec dates n)"
      using d unfolding set_expand_spec by fastforce+
    then have "valid_date d" "valid_date (d + k)"
      using assms by (simp_all add: list_all_iff)
    then show ?thesis by (rule add_days_valid)
  qed
  have "concat (map (\<lambda>one. map (\<lambda>d. add_days d one) dates) (range_py n)) =
      map Inr (concat (map (\<lambda>one. map (\<lambda>d. d + one) dates) (range_py n)))"
    using ok by (simp add: map_concat comp_def cong: map_cong)
  then have "expand_days dates n =
      Inr (sort (concat (map (\<lambda>one. map (\<lambda>d. d + one) dates) (range_py n))))"
    by (simp add: expand_days_def collect_map_Inr)
  moreover have "sort (concat (map (\<lambda>one. map (\<lambda>d. d + one) dates) (range_py n))) =
      sort (expand_spec dates n)"
    using mset_offsets_dates [of dates n]
    by (intro properties_for_sort) simp_all
  ultimately show ?thesis by simp
qed

lemma expand_days_invalid:
  assumes "\<not> list_all valid_date (expand_spec dates n)"
  shows "expand_days dates n = Inl OverflowError"
proof -
  obtain d k where d: "d \<in> set dates" and k: "0 \<le> k \<and> k < n" and v: "\<not> valid_date (d + k)"
    using assms unfolding list_all_iff set_expand_spec by blast
  have "k \<in> set (range_py n)" using k by (simp add: range_py_upto)
  moreover have "add_days d k = Inl OverflowError" using v by (rule add_days_invalid)
  ultimately have "Inl OverflowError \<in>
      set (concat (map (\<lambda>one. map (\<lambda>d. add_days d one) dates) (range_py n)))"
    using d by force
  then obtain err where c:
    "collect (concat (map (\<lambda>one. map (\<lambda>d. add_days d one) dates) (range_py n))) = Inl err"
    using collect_has_Inl by blast
  then have "Inl err \<in> set (concat (map (\<lambda>one. map (\<lambda>d. add_days d one) dates) (range_py n)))"
    by (rule collect_Inl)
  then have "err = OverflowError" using add_days_Inl by auto
  then show ?thesis using c by (simp add: expand_days_def)
qed

lemma expand_days_cases:
  "expand_days dates n =
     (if list_all valid_date (expand_spec dates n) then Inr (sort (expand_spec dates n))
      else Inl OverflowError)"
  by (simp add: expand_days_valid expand_days_invalid)

lemma length_expand_spec: "length (expand_spec dates n) = length dates * nat n"
  by (induction dates) (simp_all add: expand_spec_def)

lemma expand_spec_zero: "expand_spec dates 0 = []"
  by (induction dates) (simp_all add: expand_spec_def)

lemma expand_spec_one: "expand_spec dates 1 = dates"
  by (induction dates) (simp_all add: expand_spec_def)

lemma labelled_days_Inr:
  "labelled_days e loc ds n = Inr daylist \<Longrightarrow>
   expand_days ds n = Inr (map fst daylist) \<and>
   daylist = construct_daynames e (map fst daylist) (longdateformat loc)"
  by (auto simp add: labelled_days_def construct_daynames_map comp_def split: sum.splits)

lemma labelled_days_Inl: "labelled_days e loc ds n = Inl err \<Longrightarrow> err = OverflowError"
  by (auto simp add: labelled_days_def expand_days_cases split: sum.splits if_splits)



subsection \<open>The wrapped segments\<close>

lemma strip_empty_iff: "strip s = [] \<longleftrightarrow> (\<forall>c \<in> set s. isspace c)"
proof
  assume "strip s = []"
  then have a: "\<forall>x \<in> set (dropWhile isspace s). isspace x"
    by (simp only: strip_def rev_is_Nil_conv dropWhile_eq_Nil_conv set_rev)
  have "dropWhile isspace s = []"
  proof (rule ccontr)
    assume ne: "dropWhile isspace s \<noteq> []"
    then have "\<not> isspace (hd (dropWhile isspace s))" by (rule hd_dropWhile)
    moreover have "hd (dropWhile isspace s) \<in> set (dropWhile isspace s)"
      using ne by simp
    ultimately show False using a by blast
  qed
  then show "\<forall>c \<in> set s. isspace c" by (simp add: dropWhile_eq_Nil_conv)
next
  assume "\<forall>c \<in> set s. isspace c"
  then have "dropWhile isspace s = []" by (simp add: dropWhile_eq_Nil_conv)
  then have "strip s = rev (dropWhile isspace (rev []))" by (simp only: strip_def)
  then show "strip s = []" by simp
qed

lemma slice_append: "slice_to n s @ slice_from n s = s"
  by (simp add: slice_to_def slice_from_def)

lemma length_slice_to: "0 \<le> n \<Longrightarrow> int (length (slice_to n s)) \<le> n"
  by (simp add: slice_to_def)

lemma rfind_less: "0 \<le> n \<Longrightarrow> rfind c s n < n"
proof -
  assume n: "0 \<le> n"
  have "int (length (slice_to n s)) \<le> n" using n by (rule length_slice_to)
  then show ?thesis using n by (auto simp add: rfind_def Let_def)
qed

lemma fill_line_inv:
  assumes "fill_line width chunks cur_line cur_len = (chunks2, cur_line2, cur_len2)"
    and "cur_len = length (concat cur_line)" and "cur_len \<le> width"
  shows "cur_len2 = length (concat cur_line2) \<and> cur_len2 \<le> width \<and>
         concat cur_line2 @ concat chunks2 = concat cur_line @ concat chunks"
  using assms
proof (induction chunks arbitrary: cur_line cur_len)
  case Nil
  then show ?case by auto
next
  case (Cons c chunks)
  show ?case
  proof (cases "cur_len + length c \<le> width")
    case True
    then have "fill_line width chunks (cur_line @ [c]) (cur_len + length c)
        = (chunks2, cur_line2, cur_len2)"
      using Cons.prems(1) by simp
    moreover have "cur_len + length c = length (concat (cur_line @ [c]))"
      using Cons.prems(2) by simp
    ultimately have "cur_len2 = length (concat cur_line2) \<and> cur_len2 \<le> width \<and>
         concat cur_line2 @ concat chunks2 = concat (cur_line @ [c]) @ concat chunks"
      using True by (rule Cons.IH)
    then show ?thesis by simp
  next
    case False
    then show ?thesis using Cons.prems by auto
  qed
qed

lemma handle_long_word_inv:
  assumes "handle_long_word chunk rest cur_line cur_len width = (chunks3, cur_line3)"
    and "cur_len = length (concat cur_line)" and "cur_len \<le> width" and "1 \<le> width"
  shows "length (concat cur_line3) \<le> width \<and>
         concat cur_line3 @ concat chunks3 = concat cur_line @ concat (chunk # rest)"
proof -
  define space_left where "space_left = int width - int cur_len"
  define hyphen where "hyphen = rfind CHR ''-'' chunk space_left"
  define n where "n = (if int (length chunk) > space_left \<and> hyphen > 0 \<and>
                  (\<exists>c \<in> set (slice_to hyphen chunk). c \<noteq> CHR ''-'')
               then hyphen + 1 else space_left)"
  have sl: "0 \<le> space_left" using assms(3) by (simp add: space_left_def)
  have "hyphen < space_left" unfolding hyphen_def using sl by (rule rfind_less)
  then have n1: "n \<le> space_left" by (simp add: n_def)
  have n0: "0 \<le> n" using sl by (simp add: n_def)
  have sl_eq: "(if width < 1 then 1 else int width - int cur_len) = space_left"
    using assms(4) by (simp add: space_left_def)
  have "handle_long_word chunk rest cur_line cur_len width
      = (slice_from n chunk # rest, cur_line @ [slice_to n chunk])"
    by (simp only: handle_long_word_def Let_def sl_eq hyphen_def [symmetric] n_def [symmetric])
  then have r: "chunks3 = slice_from n chunk # rest" "cur_line3 = cur_line @ [slice_to n chunk]"
    using assms(1) by simp_all
  have "int (length (slice_to n chunk)) \<le> n" using n0 by (rule length_slice_to)
  then have "int (length (concat cur_line3)) \<le> int width"
    using n1 assms(2) by (simp add: r space_left_def)
  moreover have "concat cur_line3 @ concat chunks3 = concat cur_line @ concat (chunk # rest)"
    by (simp add: r slice_append)
  ultimately show ?thesis by simp
qed

lemma concat_butlast_le: "length (concat (butlast xs)) \<le> length (concat xs)"
  by (induction xs) simp_all

lemma strip_Nil: "strip [] = []"
  by (simp add: strip_def)

lemma strip_append_empty: "strip a = [] \<Longrightarrow> strip b = [] \<Longrightarrow> strip (a @ b) = []"
  by (auto simp add: strip_empty_iff)

lemma strip_prefix: "strip a = [] \<Longrightarrow> strip (a @ t) = strip t"
proof -
  assume "strip a = []"
  then have "\<And>x. x \<in> set a \<Longrightarrow> isspace x" by (simp add: strip_empty_iff)
  then have "dropWhile isspace (a @ t) = dropWhile isspace t" by (rule dropWhile_append2)
  then show ?thesis by (simp add: strip_def)
qed

lemma strip_suffix: "strip b = [] \<Longrightarrow> strip (t @ b) = strip t"
proof (cases "strip t = []")
  case True
  assume "strip b = []"
  then show ?thesis using True by (simp add: strip_append_empty)
next
  case False
  assume b: "strip b = []"
  obtain x where x: "x \<in> set t" "\<not> isspace x"
    using False by (auto simp add: strip_empty_iff)
  then have d: "dropWhile isspace (t @ b) = dropWhile isspace t @ b"
    by (rule dropWhile_append1)
  have "\<And>y. y \<in> set (rev b) \<Longrightarrow> isspace y" using b by (simp add: strip_empty_iff)
  then have "dropWhile isspace (rev b @ rev (dropWhile isspace t)) =
      dropWhile isspace (rev (dropWhile isspace t))"
    by (rule dropWhile_append2)
  then show ?thesis using d by (simp add: strip_def)
qed

lemma length_strip_le: "length (strip t) \<le> length t"
proof -
  have "length (dropWhile P xs) \<le> length xs" for P and xs :: "'a list"
    by (induction xs) simp_all
  from this [of isspace "rev (dropWhile isspace t)"] this [of isspace t]
  show ?thesis by (simp add: strip_def)
qed

lemma wrap_line_inv:
  assumes "wrap_line width started chunks = (chunks', cur_line)" and "1 \<le> width"
    and "chunks \<noteq> []"
  shows "length (concat cur_line) \<le> width \<and>
         (\<exists>pre post. strip pre = [] \<and> strip post = [] \<and>
            concat chunks = pre @ concat cur_line @ post @ concat chunks')"
proof -
  define chunks1 where
    "chunks1 = (if strip (hd chunks) = [] \<and> started then tl chunks else chunks)"
  obtain chunks2 cur_line2 cur_len2 where
    f: "fill_line width chunks1 [] 0 = (chunks2, cur_line2, cur_len2)"
    by (cases "fill_line width chunks1 [] 0") auto
  define r where "r = (case chunks2 of
               [] \<Rightarrow> (chunks2, cur_line2)
             | chunk # rest \<Rightarrow>
                 if length chunk > width
                 then handle_long_word chunk rest cur_line2 cur_len2 width
                 else (chunks2, cur_line2))"
  obtain chunks3 cur_line3 where r3: "r = (chunks3, cur_line3)" by (cases r) auto
  have w: "chunks' = chunks3"
      "cur_line = (if cur_line3 \<noteq> [] \<and> strip (last cur_line3) = []
                       then butlast cur_line3 else cur_line3)"
    using assms(1) f r3 unfolding wrap_line_def chunks1_def [symmetric] r_def
    by (simp_all add: Let_def)
  have c1: "\<exists>pre. strip pre = [] \<and> concat chunks = pre @ concat chunks1"
  proof (cases "strip (hd chunks) = [] \<and> started")
    case True
    obtain c rest where cs: "chunks = c # rest" using assms(3) by (cases chunks) auto
    have "strip c = [] \<and> concat chunks = c @ concat chunks1"
      using True cs by (simp add: chunks1_def)
    then show ?thesis by blast
  next
    case False
    then have "strip [] = [] \<and> concat chunks = [] @ concat chunks1"
      by (auto simp add: chunks1_def strip_def)
    then show ?thesis by blast
  qed
  have i2: "cur_len2 = length (concat cur_line2) \<and> cur_len2 \<le> width \<and>
         concat cur_line2 @ concat chunks2 = concat [] @ concat chunks1"
    using f by (rule fill_line_inv) simp_all
  have i3: "length (concat cur_line3) \<le> width \<and>
         concat cur_line3 @ concat chunks3 = concat chunks1"
  proof (cases chunks2)
    case Nil
    then have "chunks3 = []" "cur_line3 = cur_line2" using r3 by (simp_all add: r_def)
    then show ?thesis using i2 Nil by auto
  next
    case (Cons chunk rest)
    show ?thesis
    proof (cases "length chunk > width")
      case True
      then have "handle_long_word chunk rest cur_line2 cur_len2 width = (chunks3, cur_line3)"
        using r3 Cons by (simp add: r_def)
      then have "length (concat cur_line3) \<le> width \<and>
         concat cur_line3 @ concat chunks3 = concat cur_line2 @ concat (chunk # rest)"
        using i2 assms(2)
          handle_long_word_inv [of chunk rest cur_line2 cur_len2 width chunks3 cur_line3]
        by simp
      then show ?thesis using i2 Cons by simp
    next
      case False
      then have "chunks3 = chunks2" "cur_line3 = cur_line2"
        using r3 Cons by (simp_all add: r_def)
      then show ?thesis using i2 by auto
    qed
  qed
  have l: "length (concat cur_line) \<le> width"
    using i3 concat_butlast_le [of cur_line3] by (simp add: w)
  have c4: "\<exists>post. strip post = [] \<and> concat cur_line3 = concat cur_line @ post"
  proof (cases "cur_line3 \<noteq> [] \<and> strip (last cur_line3) = []")
    case True
    then have "concat cur_line3 = concat (butlast cur_line3) @ last cur_line3"
      by (metis append_butlast_last_id concat.simps concat_append append_Nil2)
    then have "strip (last cur_line3) = [] \<and>
        concat cur_line3 = concat cur_line @ last cur_line3"
      using True by (simp add: w)
    then show ?thesis by blast
  next
    case False
    then have "strip [] = [] \<and> concat cur_line3 = concat cur_line @ []"
      by (auto simp add: w strip_def)
    then show ?thesis by blast
  qed
  obtain pre where pre: "strip pre = []" "concat chunks = pre @ concat chunks1"
    using c1 by blast
  obtain post where post: "strip post = []" "concat cur_line3 = concat cur_line @ post"
    using c4 by blast
  have "concat chunks = pre @ concat cur_line @ post @ concat chunks'"
    using pre(2) post(2) i3 by (simp add: w(1))
  then show ?thesis using l pre(1) post(1) by blast
qed

lemma wrap_lines_bound:
  "1 \<le> width \<Longrightarrow> list_all (\<lambda>l. length l \<le> width) lines \<Longrightarrow>
   list_all (\<lambda>l. length l \<le> width) (wrap_lines width chunks lines)"
proof (induction width chunks lines rule: wrap_lines.induct)
  case (1 width chunks lines)
  show ?case
  proof (cases "chunks = []")
    case True
    then show ?thesis using "1.prems" by (simp add: wrap_lines.simps)
  next
    case False
    obtain chunks' cur_line where
      wl: "wrap_line width (lines \<noteq> []) chunks = (chunks', cur_line)"
      by (cases "wrap_line width (lines \<noteq> []) chunks") auto
    define lines' where
      "lines' = (if cur_line \<noteq> [] then lines @ [concat cur_line] else lines)"
    have "length (concat cur_line) \<le> width"
      using wrap_line_inv [OF wl "1.prems"(1) False] by simp
    then have b: "list_all (\<lambda>l. length l \<le> width) lines'"
      using "1.prems"(2) by (simp add: lines'_def)
    have "list_all (\<lambda>l. length l \<le> width) (wrap_lines width chunks' lines')"
      unfolding lines'_def
      using False wl "1.prems"(1) b [unfolded lines'_def]
      by (intro "1.IH" [of "(chunks', cur_line)" chunks' cur_line]) simp_all
    moreover have "wrap_lines width chunks lines = wrap_lines width chunks' lines'"
      using False wl by (subst wrap_lines.simps) (simp add: lines'_def)
    ultimately show ?thesis by simp
  qed
qed

lemma wrap_lines_step:
  assumes "chunks \<noteq> []" and "wrap_line width (lines \<noteq> []) chunks = (chunks', cur_line)"
  shows "wrap_lines width chunks lines =
      wrap_lines width chunks' (if cur_line \<noteq> [] then lines @ [concat cur_line] else lines)"
  using assms by (subst wrap_lines.simps) simp

lemma wrap_lines_length: "length lines \<le> length (wrap_lines width chunks lines)"
proof (induction width chunks lines rule: wrap_lines.induct)
  case (1 width chunks lines)
  show ?case
  proof (cases "chunks = []")
    case True
    then show ?thesis by (simp add: wrap_lines.simps)
  next
    case False
    obtain chunks' cur_line where
      wl: "wrap_line width (lines \<noteq> []) chunks = (chunks', cur_line)"
      by (cases "wrap_line width (lines \<noteq> []) chunks") auto
    define lines' where
      "lines' = (if cur_line \<noteq> [] then lines @ [concat cur_line] else lines)"
    have "length lines' \<le> length (wrap_lines width chunks' lines')"
      unfolding lines'_def using False wl
      by (intro "1.IH" [of "(chunks', cur_line)" chunks' cur_line]) simp_all
    moreover have "length lines \<le> length lines'" by (simp add: lines'_def)
    moreover have "wrap_lines width chunks lines = wrap_lines width chunks' lines'"
      unfolding lines'_def using False wl by (rule wrap_lines_step)
    ultimately show ?thesis by simp
  qed
qed

lemma wrap_lines_no_line:
  "1 \<le> width \<Longrightarrow> length (wrap_lines width chunks lines) \<le> length lines \<Longrightarrow>
   strip (concat chunks) = []"
proof (induction width chunks lines rule: wrap_lines.induct)
  case (1 width chunks lines)
  show ?case
  proof (cases "chunks = []")
    case True
    then show ?thesis by (simp add: strip_Nil)
  next
    case False
    obtain chunks' cur_line where
      wl: "wrap_line width (lines \<noteq> []) chunks = (chunks', cur_line)"
      by (cases "wrap_line width (lines \<noteq> []) chunks") auto
    define lines' where
      "lines' = (if cur_line \<noteq> [] then lines @ [concat cur_line] else lines)"
    have step: "wrap_lines width chunks lines = wrap_lines width chunks' lines'"
      unfolding lines'_def using False wl by (rule wrap_lines_step)
    have ge: "length lines' \<le> length (wrap_lines width chunks' lines')"
      by (rule wrap_lines_length)
    have e: "cur_line = []"
    proof (rule ccontr)
      assume "cur_line \<noteq> []"
      then have "length lines' = Suc (length lines)" by (simp add: lines'_def)
      then show False using ge step "1.prems"(2) by simp
    qed
    then have l: "lines' = lines" by (simp add: lines'_def)
    have "length (wrap_lines width chunks' lines') \<le> length lines'"
      using "1.prems"(2) step l by simp
    then have rest: "strip (concat chunks') = []"
      unfolding lines'_def using False wl "1.prems"(1)
      by (intro "1.IH" [of "(chunks', cur_line)" chunks' cur_line]) simp_all
    obtain pre post where "strip pre = []" "strip post = []"
      "concat chunks = pre @ concat cur_line @ post @ concat chunks'"
      using wrap_line_inv [OF wl "1.prems"(1) False] by blast
    then show ?thesis using e rest by (simp add: strip_append_empty)
  qed
qed

lemma wrap_lines_one_line:
  "1 \<le> width \<Longrightarrow> length (wrap_lines width chunks lines) \<le> Suc (length lines) \<Longrightarrow>
   length (strip (concat chunks)) \<le> width"
proof (induction width chunks lines rule: wrap_lines.induct)
  case (1 width chunks lines)
  show ?case
  proof (cases "chunks = []")
    case True
    then show ?thesis by (simp add: strip_Nil)
  next
    case False
    obtain chunks' cur_line where
      wl: "wrap_line width (lines \<noteq> []) chunks = (chunks', cur_line)"
      by (cases "wrap_line width (lines \<noteq> []) chunks") auto
    define lines' where
      "lines' = (if cur_line \<noteq> [] then lines @ [concat cur_line] else lines)"
    have step: "wrap_lines width chunks lines = wrap_lines width chunks' lines'"
      unfolding lines'_def using False wl by (rule wrap_lines_step)
    obtain pre post where pp: "strip pre = []" "strip post = []"
      "concat chunks = pre @ concat cur_line @ post @ concat chunks'"
      and len: "length (concat cur_line) \<le> width"
      using wrap_line_inv [OF wl "1.prems"(1) False] by blast
    show ?thesis
    proof (cases "cur_line = []")
      case True
      then have l: "lines' = lines" by (simp add: lines'_def)
      have "length (wrap_lines width chunks' lines') \<le> Suc (length lines')"
        using "1.prems"(2) step l by simp
      then have "length (strip (concat chunks')) \<le> width"
        unfolding lines'_def using False wl "1.prems"(1)
        by (intro "1.IH" [of "(chunks', cur_line)" chunks' cur_line]) simp_all
      moreover have "strip (concat chunks) = strip (concat chunks')"
        using pp True by (simp add: strip_prefix)
      ultimately show ?thesis by simp
    next
      case ne: False
      then have "length lines' = Suc (length lines)" by (simp add: lines'_def)
      then have "length (wrap_lines width chunks' lines') \<le> length lines'"
        using "1.prems"(2) step by simp
      then have "strip (concat chunks') = []"
        using "1.prems"(1) by (intro wrap_lines_no_line)
      then have "strip (post @ concat chunks') = []"
        using pp(2) by (rule strip_append_empty [rotated])
      then have "strip (concat chunks) = strip (concat cur_line)"
        using pp(1,3) by (simp add: strip_prefix) (metis append.assoc strip_suffix)
      then show ?thesis using len length_strip_le [of "concat cur_line"] by simp
    qed
  qed
qed

lemma wrap_lines_two:
  assumes "1 \<le> width" and "width < length (strip (concat chunks))"
  shows "2 \<le> length (wrap_lines width chunks [])"
proof (rule ccontr)
  assume "\<not> 2 \<le> length (wrap_lines width chunks [])"
  then have "length (wrap_lines width chunks []) \<le> Suc (length ([] :: string list))" by simp
  then have "length (strip (concat chunks)) \<le> width"
    using assms(1) by (intro wrap_lines_one_line)
  then show False using assms(2) by simp
qed

lemma concat_cut: "concat (cut ns s) = s"
  by (induction ns arbitrary: s) simp_all

lemma concat_filter_nonempty: "concat (filter (\<lambda>c. c \<noteq> []) xs) = concat xs"
  by (induction xs) simp_all

lemma concat_split_chunks: "concat (split_chunks e text) = munge_whitespace text"
  by (simp add: split_chunks_def wordsep_re_split_def concat_filter_nonempty concat_cut)

subsection \<open>The loops of get\_agenda\<close>

lemma wrap_cases:
  "wrap e t w = (if w \<le> 0 then Inl ValueError else Inr (wrap_lines (nat w) (split_chunks e t) []))"
  by (simp add: wrap_def wrap_chunks_def)

lemma event_lines_wrap: "wrap e (compact ev day) w = Inr desc \<Longrightarrow>
   event_lines e w day ev = map (\<lambda>d. colored d (color ev)) desc"
  by (simp add: event_lines_def)

lemma extend_events_Inr:
  "extend_events e w day col evs = Inr out \<Longrightarrow>
   out = col @ concat (map (event_lines e w day) evs)"
proof (induction evs arbitrary: col)
  case Nil
  then show ?case by simp
next
  case (Cons ev evs)
  show ?case
  proof (cases "wrap e (compact ev day) w")
    case (Inl err)
    then show ?thesis using Cons.prems by simp
  next
    case (Inr desc)
    then have "extend_events e w day (col @ map (\<lambda>d. colored d (color ev)) desc) evs = Inr out"
      using Cons.prems by simp
    then have "out = (col @ map (\<lambda>d. colored d (color ev)) desc) @
        concat (map (event_lines e w day) evs)"
      by (rule Cons.IH)
    then show ?thesis using Inr by (simp add: event_lines_wrap)
  qed
qed

lemma extend_events_Inl:
  "extend_events e w day col evs = Inl err \<Longrightarrow> err = ValueError \<and> w \<le> 0"
proof (induction evs arbitrary: col)
  case Nil
  then show ?case by simp
next
  case (Cons ev evs)
  show ?case
  proof (cases "wrap e (compact ev day) w")
    case (Inl err')
    then have "err' = err" using Cons.prems by simp
    then show ?thesis using Inl by (simp add: wrap_cases split: if_splits)
  next
    case (Inr desc)
    then have "extend_events e w day (col @ map (\<lambda>d. colored d (color ev)) desc) evs = Inl err"
      using Cons.prems by simp
    then show ?thesis by (rule Cons.IH)
  qed
qed

lemma agenda_loop_Inr:
  "agenda_loop e c w sad (col, evs) daylist = Inr out \<Longrightarrow>
   out = col @ concat (map (day_block_spec e c w sad) daylist)"
proof (induction daylist arbitrary: col evs)
  case Nil
  then show ?case by simp
next
  case (Cons dn daylist)
  obtain day dayname where dn: "dn = (day, dayname)" by (cases dn) auto
  define ad where "ad = get_allday_by_time_range c day"
  define ts where "ts = get_datetime_by_time_range c (combine day time_min) (combine day time_max)"
  show ?case
  proof (cases "ts = [] \<and> ad = [] \<and> \<not> sad")
    case True
    then have "agenda_loop e c w sad (col, Some ts) daylist = Inr out"
      using Cons.prems by (simp add: dn ad_def ts_def Let_def)
    then have "out = col @ concat (map (day_block_spec e c w sad) daylist)"
      by (rule Cons.IH)
    moreover have "day_block_spec e c w sad dn = []"
      using True by (simp add: day_block_spec_def dn ad_def ts_def Let_def)
    ultimately show ?thesis by simp
  next
    case False
    show ?thesis
    proof (cases "extend_events e w day (col @ [style dayname True]) (ad @ sort_key start ts)")
      case (Inl err)
      then show ?thesis using Cons.prems False
        by (auto simp add: dn ad_def ts_def Let_def)
    next
      case (Inr col')
      then have "agenda_loop e c w sad (col', Some (sort_key start ts)) daylist = Inr out"
        using Cons.prems False by (auto simp add: dn ad_def ts_def Let_def)
      then have a: "out = col' @ concat (map (day_block_spec e c w sad) daylist)"
        by (rule Cons.IH)
      have b: "col' = (col @ [style dayname True]) @
          concat (map (event_lines e w day) (ad @ sort_key start ts))"
        using Inr by (rule extend_events_Inr)
      have "day_block_spec e c w sad dn = style dayname True #
          concat (map (event_lines e w day) (ad @ sort_key start ts))"
        using False by (auto simp add: day_block_spec_def dn ad_def ts_def Let_def)
      then show ?thesis using a b by simp
    qed
  qed
qed

lemma agenda_loop_Inl:
  "agenda_loop e c w sad (col, evs) daylist = Inl err \<Longrightarrow> err = ValueError \<and> w \<le> 0"
proof (induction daylist arbitrary: col evs)
  case Nil
  then show ?case by simp
next
  case (Cons dn daylist)
  obtain day dayname where dn: "dn = (day, dayname)" by (cases dn) auto
  define ad where "ad = get_allday_by_time_range c day"
  define ts where "ts = get_datetime_by_time_range c (combine day time_min) (combine day time_max)"
  show ?case
  proof (cases "ts = [] \<and> ad = [] \<and> \<not> sad")
    case True
    then have "agenda_loop e c w sad (col, Some ts) daylist = Inl err"
      using Cons.prems by (simp add: dn ad_def ts_def Let_def)
    then show ?thesis by (rule Cons.IH)
  next
    case False
    show ?thesis
    proof (cases "extend_events e w day (col @ [style dayname True]) (ad @ sort_key start ts)")
      case (Inl err')
      then have "err' = err" using Cons.prems False
        by (auto simp add: dn ad_def ts_def Let_def)
      then show ?thesis using Inl extend_events_Inl by blast
    next
      case (Inr col')
      then have "agenda_loop e c w sad (col', Some (sort_key start ts)) daylist = Inl err"
        using Cons.prems False by (auto simp add: dn ad_def ts_def Let_def)
      then show ?thesis by (rule Cons.IH)
    qed
  qed
qed


lemma agenda_loop_events:
  "agenda_loop e c w sad (col, ev1) daylist = agenda_loop e c w sad (col, ev2) daylist"
proof (cases daylist)
  case Nil
  then show ?thesis by simp
next
  case (Cons dn rest)
  obtain day dayname where dn: "dn = (day, dayname)" by (cases dn) auto
  show ?thesis by (simp add: Cons dn)
qed

lemma wrap_Inr_bound:
  assumes "wrap e t w = Inr desc"
  shows "0 < w \<and> list_all (\<lambda>d. int (length d) \<le> w) desc"
proof -
  have w: "0 < w" using assms by (simp add: wrap_cases split: if_splits)
  then have d: "desc = wrap_lines (nat w) (split_chunks e t) []"
    using assms by (simp add: wrap_cases)
  have "list_all (\<lambda>l. length l \<le> nat w) (wrap_lines (nat w) (split_chunks e t) [])"
    using w by (intro wrap_lines_bound) simp_all
  then have "list_all (\<lambda>l. int (length l) \<le> w) desc"
    unfolding d using w by (auto simp add: list_all_iff)
  then show ?thesis using w by simp
qed



lemma get_agenda_resolved:
  assumes "\<not> (days \<noteq> None \<and> events \<noteq> None)" and "resolve_dates e loc dates = Inr ds"
    and "labelled_days e loc ds (default_days days) = Inr daylist"
  shows "get_agenda e c loc dates days events w sad lg =
     (case agenda_loop e c w sad ([], events) daylist of
        Inl err \<Rightarrow> (Inl err, lg)
      | Inr col \<Rightarrow> (Inr (if col = [] then [style ''No events'' True] else col), lg))"
  using assms by (auto simp add: get_agenda_def Let_def)

lemma get_agenda_unparsed:
  assumes "\<not> (days \<noteq> None \<and> events \<noteq> None)" and "resolve_dates e loc dates = Inl msg"
  shows "get_agenda e c loc dates days events w sad lg = (Inl (SystemExit 1), lg @ [msg])"
  using assms by (auto simp add: get_agenda_def Let_def)

lemma get_agenda_overflow:
  assumes "\<not> (days \<noteq> None \<and> events \<noteq> None)" and "resolve_dates e loc dates = Inr ds"
    and "labelled_days e loc ds (default_days days) = Inl err"
  shows "get_agenda e c loc dates days events w sad lg = (Inl OverflowError, lg)"
  using assms labelled_days_Inl [OF assms(3)] by (auto simp add: get_agenda_def Let_def)

lemma get_agenda_Inr:
  assumes "get_agenda e c loc dates days events w sad lg = (Inr lines, lg')"
  shows "\<not> (days \<noteq> None \<and> events \<noteq> None) \<and> lg' = lg \<and>
     (\<exists>ds daylist col. resolve_dates e loc dates = Inr ds \<and>
        labelled_days e loc ds (default_days days) = Inr daylist \<and>
        agenda_loop e c w sad ([], events) daylist = Inr col \<and>
        lines = (if col = [] then [style ''No events'' True] else col))"
proof -
  have a: "\<not> (days \<noteq> None \<and> events \<noteq> None)"
    using assms by (auto simp add: get_agenda_def split: if_splits)
  obtain ds where ds: "resolve_dates e loc dates = Inr ds"
    using assms a by (cases "resolve_dates e loc dates") (auto simp add: get_agenda_def Let_def)
  obtain daylist where dl: "labelled_days e loc ds (default_days days) = Inr daylist"
    using assms get_agenda_overflow [OF a ds, of _ c w sad lg]
    by (cases "labelled_days e loc ds (default_days days)") auto
  obtain col where col: "agenda_loop e c w sad ([], events) daylist = Inr col"
    using assms get_agenda_resolved [OF a ds dl, of c w sad lg]
    by (cases "agenda_loop e c w sad ([], events) daylist") auto
  have "(Inr lines, lg') = (Inr (if col = [] then [style ''No events'' True] else col), lg)"
    using assms get_agenda_resolved [OF a ds dl, of c w sad lg] col by simp
  then show ?thesis using a ds dl col by auto
qed


lemma member_not_Nil: "x \<in> set xs \<Longrightarrow> xs \<noteq> []"
  by (cases xs) simp_all

lemma day_block_spec_skip:
  "get_allday_by_time_range c (fst dn) = [] \<Longrightarrow>
   get_datetime_by_time_range c (combine (fst dn) time_min) (combine (fst dn) time_max) = [] \<Longrightarrow>
   day_block_spec e c w False dn = []"
  by (simp add: day_block_spec_def Let_def)

lemma day_block_spec_header:
  "\<not> (get_datetime_by_time_range c (combine (fst dn) time_min) (combine (fst dn) time_max) = [] \<and>
      get_allday_by_time_range c (fst dn) = [] \<and> \<not> sad) \<Longrightarrow>
   day_block_spec e c w sad dn = style (snd dn) True #
     concat (map (event_lines e w (fst dn))
       (get_allday_by_time_range c (fst dn) @
        sort_key start (get_datetime_by_time_range c (combine (fst dn) time_min)
          (combine (fst dn) time_max))))"
  by (auto simp add: day_block_spec_def Let_def)

lemma get_agenda_blocks:
  assumes "get_agenda e c loc dates days events w sad lg = (Inr lines, lg')"
  shows "\<exists>ds daylist. resolve_dates e loc dates = Inr ds \<and>
     labelled_days e loc ds (default_days days) = Inr daylist \<and>
     lines = (let blocks = map (day_block_spec e c w sad) daylist
              in if concat blocks = [] then [style ''No events'' True] else concat blocks)"
proof -
  obtain ds daylist col where ds: "resolve_dates e loc dates = Inr ds"
    and dl: "labelled_days e loc ds (default_days days) = Inr daylist"
    and col: "agenda_loop e c w sad ([], events) daylist = Inr col"
    and l: "lines = (if col = [] then [style ''No events'' True] else col)"
    using get_agenda_Inr [OF assms] by blast
  have "col = [] @ concat (map (day_block_spec e c w sad) daylist)"
    using col by (rule agenda_loop_Inr)
  then show ?thesis using ds dl l by (auto simp add: Let_def)
qed

lemma wrap_positive:
  "0 < w \<Longrightarrow> wrap e t w = Inr (wrap_lines (nat w) (split_chunks e t) [])"
  by (simp add: wrap_cases)

lemma event_lines_fit: "list_all (fits w) (event_lines e w day ev)"
proof (cases "wrap e (compact ev day) w")
  case (Inl err)
  then show ?thesis by (simp add: event_lines_def)
next
  case (Inr desc)
  then have "list_all (\<lambda>d. int (length d) \<le> w) desc"
    using wrap_Inr_bound by blast
  then show ?thesis using Inr by (simp add: event_lines_def list_all_iff fits_def)
qed

lemma day_block_fit: "list_all (fits w) (day_block_spec e c w sad dn)"
proof -
  have "list_all (fits w) (concat (map (event_lines e w day) evs))" for day evs
    using event_lines_fit by (induction evs) simp_all
  then show ?thesis by (simp add: day_block_spec_def Let_def fits_def)
qed

lemma get_agenda_fit:
  assumes "get_agenda e c loc dates days events w sad lg = (Inr lines, lg')"
  shows "list_all (fits w) lines"
proof -
  obtain daylist where l: "lines = (let blocks = map (day_block_spec e c w sad) daylist
              in if concat blocks = [] then [style ''No events'' True] else concat blocks)"
    using get_agenda_blocks [OF assms] by blast
  have "list_all (fits w) (concat (map (day_block_spec e c w sad) days'))" for days'
    using day_block_fit by (induction days') simp_all
  then show ?thesis unfolding l Let_def by (simp add: fits_def)
qed

section \<open>The claims\<close>




text \<open>
  C2, as stated, fails: for the one date 31 December 9999 (ordinal 3652059) and a day count
  of 2 the addition of line 99 raises \<^verbatim>\<open>OverflowError\<close>, and no expanded day list
  is computed.
\<close>

theorem expand_days_overflow_counterexample:
  "expand_days [3652059] 2 = Inl OverflowError \<and>
   expand_days [3652059] 2 \<noteq> Inr (sort (expand_spec [3652059] 2))"
  by code_simp

text \<open>
  C2, amended. For every list of dates and every day count \<open>n\<close> such that no day
  \<open>d + k\<close> (\<open>d\<close> in \<open>dates\<close>, \<open>0 \<le> k < n\<close>) comes after 31 December 9999, the
  expanded day list of \<^verbatim>\<open>get_agenda\<close> is the stable sort of the flattened per-date
  runs \<open>d, d + 1, \<dots>, d + n - 1\<close>: it is sorted chronologically and holds each day as
  often as it arises, overlapping runs keeping their duplicates, so that its length is the
  number of dates times \<open>n\<close>. Otherwise the expansion raises \<^verbatim>\<open>OverflowError\<close>.
\<close>

theorem expand_days_sorted_runs:
  "expand_days dates n =
     (if list_all valid_date (expand_spec dates n) then Inr (sort (expand_spec dates n))
      else Inl OverflowError) \<and>
   (\<forall>daylist. expand_days dates n = Inr daylist \<longrightarrow>
      sorted daylist \<and>
      mset daylist = mset (concat (map (\<lambda>d. map (\<lambda>k. d + k) [0..n - 1]) dates)) \<and>
      length daylist = length dates * nat n)"
proof -
  have c: "expand_days dates n =
     (if list_all valid_date (expand_spec dates n) then Inr (sort (expand_spec dates n))
      else Inl OverflowError)"
    by (rule expand_days_cases)
  have "sorted daylist \<and>
      mset daylist = mset (concat (map (\<lambda>d. map (\<lambda>k. d + k) [0..n - 1]) dates)) \<and>
      length daylist = length dates * nat n"
    if "expand_days dates n = Inr daylist" for daylist
  proof -
    have d: "daylist = sort (expand_spec dates n)"
      using that c by (simp split: if_splits)
    have "length daylist = length (expand_spec dates n)" by (simp add: d)
    then have "length daylist = length dates * nat n" by (simp add: length_expand_spec)
    moreover have "mset daylist = mset (concat (map (\<lambda>d. map (\<lambda>k. d + k) [0..n - 1]) dates))"
      by (simp add: d expand_spec_def)
    moreover have "sorted daylist" by (simp add: d)
    ultimately show ?thesis by simp
  qed
  then show ?thesis using c by blast
qed

theorem expand_days_sorted_runs_witness:
  "expand_days [735333, 735332] 2 = Inr [735332, 735333, 735333, 735334] \<and>
   expand_spec [735333, 735332] 2 = [735333, 735334, 735332, 735333] \<and>
   sorted [735332, 735333, 735333, 735334 :: int] \<and>
   mset [735332, 735333, 735333, 735334]
     = mset (concat (map (\<lambda>d. map (\<lambda>k. d + k) [0..2 - 1]) [735333, 735332 :: int])) \<and>
   length [735332, 735333, 735333, 735334 :: int] = length [735333, 735332 :: int] * nat 2"
proof -
  have h: "expand_days [735333, 735332] 2 = Inr [735332, 735333, 735333, 735334]"
    by code_simp
  have s: "expand_spec [735333, 735332] 2 = [735333, 735334, 735332, 735333]"
    by code_simp
  from expand_days_sorted_runs [of "[735333, 735332]" 2] h s show ?thesis by blast
qed

text \<open>
  C3, as stated, fails: with a day count of 0 the comprehension runs over
  \<^verbatim>\<open>range(0)\<close>, so the expanded day list of the one-date list \<open>[735332]\<close>
  (9 April 2014) is empty and not that list, with or without deduplication.
\<close>

theorem expand_days_zero_counterexample:
  "expand_days [735332] 0 \<noteq> Inr (sort [735332]) \<and>
   expand_days [735332] 0 \<noteq> Inr (sort (remdups [735332]))"
  by (simp add: expand_days_cases expand_spec_zero)

text \<open>
  C3, amended. For every date list the expanded day list is empty when the day count is 0;
  it is with a day count of 1 that the expanded day list is the input date list, duplicates
  kept, sorted chronologically (the entries of the list being dates, that is ordinals from
  1 to 3652059: on any other number the addition of line 99 raises).
\<close>

theorem expand_days_zero_empty:
  "expand_days dates 0 = Inr [] \<and>
   expand_days dates 1 =
     (if list_all valid_date dates then Inr (sort dates) else Inl OverflowError)"
  by (simp add: expand_days_cases expand_spec_zero expand_spec_one)

text \<open>
  C4. When \<^verbatim>\<open>get_agenda\<close> returns, its lines are the blocks of the labelled days,
  in order (or the line \<open>No events\<close> when all blocks are empty). The block of a day
  for which both queries give no event is empty when not all days are shown: no header, no
  line at all. When all days are shown, the block of every day begins with the bold header
  of its label, so the header of every day of the list is among the returned lines, events
  or not.
\<close>

theorem get_agenda_day_headers:
  assumes "get_agenda e c loc dates days events width sad lg = (Inr lines, lg')"
  shows "\<exists>ds daylist. resolve_dates e loc dates = Inr ds \<and>
     labelled_days e loc ds (default_days days) = Inr daylist \<and>
     lines = (let blocks = map (day_block_spec e c width sad) daylist
              in if concat blocks = [] then [style ''No events'' True] else concat blocks) \<and>
     (\<forall>dn. get_allday_by_time_range c (fst dn) = [] \<and>
           get_datetime_by_time_range c (combine (fst dn) time_min) (combine (fst dn) time_max)
             = [] \<and> \<not> sad \<longrightarrow>
           day_block_spec e c width sad dn = []) \<and>
     (sad \<longrightarrow>
        (\<forall>dn. \<exists>rest. day_block_spec e c width sad dn = style (snd dn) True # rest) \<and>
        list_all (\<lambda>dn. style (snd dn) True \<in> set lines) daylist)"
proof -
  obtain ds daylist where ds: "resolve_dates e loc dates = Inr ds"
    and dl: "labelled_days e loc ds (default_days days) = Inr daylist"
    and l: "lines = (let blocks = map (day_block_spec e c width sad) daylist
              in if concat blocks = [] then [style ''No events'' True] else concat blocks)"
    using get_agenda_blocks [OF assms] by blast
  have skip: "day_block_spec e c width sad dn = []"
    if "get_allday_by_time_range c (fst dn) = [] \<and>
        get_datetime_by_time_range c (combine (fst dn) time_min) (combine (fst dn) time_max)
             = [] \<and> \<not> sad" for dn
    using that day_block_spec_skip [of c dn e width] by simp
  have hdr: "\<exists>rest. day_block_spec e c width sad dn = style (snd dn) True # rest"
    if "sad" for dn
    using that day_block_spec_header [of c dn sad e width] by simp
  have mem: "list_all (\<lambda>dn. style (snd dn) True \<in> set lines) daylist" if sad: "sad"
  proof -
    have "style (snd dn) True \<in> set lines" if dn: "dn \<in> set daylist" for dn
    proof -
      obtain rest where r: "day_block_spec e c width sad dn = style (snd dn) True # rest"
        using hdr [OF sad] by blast
      then have in_blocks:
        "style (snd dn) True \<in> set (concat (map (day_block_spec e c width sad) daylist))"
        using dn by force
      then have "concat (map (day_block_spec e c width sad) daylist) \<noteq> []"
        by (rule member_not_Nil)
      then have "lines = concat (map (day_block_spec e c width sad) daylist)"
        using l by (simp only: Let_def if_False)
      then show ?thesis using in_blocks by simp
    qed
    then show ?thesis by (simp add: list_all_iff)
  qed
  from ds dl l skip hdr mem show ?thesis by blast
qed

theorem get_agenda_day_headers_witness:
  "get_agenda example_env example_collection example_locale
     (Some [DateString ''09.04.2014'']) None None 45 True []
   = (Inr [style ''09.04.2014'' True, colored ''Holiday'' ''dark green'',
           colored ''08:00-09:00: Breakfast'' ''dark blue'',
           colored ''09:30-10:30: An Event'' ''dark blue'',
           colored ''09:30-11:00: Another Event'' ''dark red'',
           style ''10.04.2014'' True], []) \<and>
   labelled_days example_env example_locale [735332] (default_days None)
   = Inr [(735332, ''09.04.2014''), (735333, ''10.04.2014'')] \<and>
   list_all (\<lambda>dn. style (snd dn) True \<in>
       set [style ''09.04.2014'' True, colored ''Holiday'' ''dark green'',
           colored ''08:00-09:00: Breakfast'' ''dark blue'',
           colored ''09:30-10:30: An Event'' ''dark blue'',
           colored ''09:30-11:00: Another Event'' ''dark red'',
           style ''10.04.2014'' True])
     [(735332 :: int, ''09.04.2014''), (735333, ''10.04.2014'')] \<and>
   get_agenda example_env example_collection example_locale
     (Some [DateString ''09.04.2014'']) None None 45 False []
   = (Inr [style ''09.04.2014'' True, colored ''Holiday'' ''dark green'',
           colored ''08:00-09:00: Breakfast'' ''dark blue'',
           colored ''09:30-10:30: An Event'' ''dark blue'',
           colored ''09:30-11:00: Another Event'' ''dark red''], []) \<and>
   day_block_spec example_env example_collection 45 False (735333, ''10.04.2014'') = []"
proof -
  have h1: "get_agenda example_env example_collection example_locale
     (Some [DateString ''09.04.2014'']) None None 45 True []
   = (Inr [style ''09.04.2014'' True, colored ''Holiday'' ''dark green'',
           colored ''08:00-09:00: Breakfast'' ''dark blue'',
           colored ''09:30-10:30: An Event'' ''dark blue'',
           colored ''09:30-11:00: Another Event'' ''dark red'',
           style ''10.04.2014'' True], [])"
    by code_simp
  have h2: "get_agenda example_env example_collection example_locale
     (Some [DateString ''09.04.2014'']) None None 45 False []
   = (Inr [style ''09.04.2014'' True, colored ''Holiday'' ''dark green'',
           colored ''08:00-09:00: Breakfast'' ''dark blue'',
           colored ''09:30-10:30: An Event'' ''dark blue'',
           colored ''09:30-11:00: Another Event'' ''dark red''], [])"
    by code_simp
  have r: "resolve_dates example_env example_locale (Some [DateString ''09.04.2014''])
      = Inr [735332]"
    by (simp add: resolve_dates_def example_env_def)
  have d: "labelled_days example_env example_locale [735332] (default_days None)
      = Inr [(735332, ''09.04.2014''), (735333, ''10.04.2014'')]"
    by code_simp
  have a: "list_all (\<lambda>dn. style (snd dn) True \<in>
       set [style ''09.04.2014'' True, colored ''Holiday'' ''dark green'',
           colored ''08:00-09:00: Breakfast'' ''dark blue'',
           colored ''09:30-10:30: An Event'' ''dark blue'',
           colored ''09:30-11:00: Another Event'' ''dark red'',
           style ''10.04.2014'' True])
     [(735332 :: int, ''09.04.2014''), (735333, ''10.04.2014'')]"
  proof -
    obtain ds daylist where d1: "resolve_dates example_env example_locale
          (Some [DateString ''09.04.2014'']) = Inr ds"
      and d2: "labelled_days example_env example_locale ds (default_days None) = Inr daylist"
      and d3: "True \<longrightarrow>
        (\<forall>dn. \<exists>rest. day_block_spec example_env example_collection 45 True dn
            = style (snd dn) True # rest) \<and>
        list_all (\<lambda>dn. style (snd dn) True \<in>
          set [style ''09.04.2014'' True, colored ''Holiday'' ''dark green'',
           colored ''08:00-09:00: Breakfast'' ''dark blue'',
           colored ''09:30-10:30: An Event'' ''dark blue'',
           colored ''09:30-11:00: Another Event'' ''dark red'',
           style ''10.04.2014'' True])
          daylist"
      using get_agenda_day_headers [OF h1] by blast
    have "ds = [735332]" using d1 r by simp
    then have "daylist = [(735332, ''09.04.2014''), (735333, ''10.04.2014'')]"
      using d2 d by simp
    then show ?thesis using d3 by blast
  qed
  have q: "get_allday_by_time_range example_collection (fst (735333 :: int, ''10.04.2014'')) = [] \<and>
      get_datetime_by_time_range example_collection
        (combine (fst (735333 :: int, ''10.04.2014'')) time_min)
        (combine (fst (735333 :: int, ''10.04.2014'')) time_max) = [] \<and> \<not> False"
    by (simp add: example_collection_def combine_def time_min_def time_max_def
        an_event_def other_event_def early_event_def)
  have b: "day_block_spec example_env example_collection 45 False (735333, ''10.04.2014'') = []"
    using get_agenda_day_headers [OF h2] q by blast
  from h1 d a h2 b show ?thesis by simp
qed

text \<open>
  C5. The step of the loop for a day that is not skipped (the width being positive, or
  the day having no event, so that no description fails to wrap) appends the bold header
  and then the lines of the events in this order: the all-day events as the collection
  returned them, then the timed events \<open>ts\<close>, which are the timed events of the
  collection sorted by start, ascending, with events of equal start in the order of the
  collection (a stable sort on the start alone).
\<close>

theorem agenda_loop_day_order:
  assumes "\<not> (get_datetime_by_time_range c (combine day time_min) (combine day time_max) = [] \<and>
             get_allday_by_time_range c day = [] \<and> \<not> sad)"
    and "0 < width \<or>
         (get_datetime_by_time_range c (combine day time_min) (combine day time_max) = [] \<and>
          get_allday_by_time_range c day = [])"
  shows "\<exists>ts. agenda_loop e c width sad (col, evs) ((day, name) # rest) =
            agenda_loop e c width sad
              (col @ style name True #
                 concat (map (event_lines e width day) (get_allday_by_time_range c day @ ts)),
               Some ts) rest \<and>
          sorted (map start ts) \<and>
          mset ts = mset (get_datetime_by_time_range c (combine day time_min)
                            (combine day time_max)) \<and>
          (\<forall>k. filter (\<lambda>x. start x = k) ts =
               filter (\<lambda>x. start x = k)
                 (get_datetime_by_time_range c (combine day time_min) (combine day time_max)))"
proof -
  define ad where "ad = get_allday_by_time_range c day"
  define timed where
    "timed = get_datetime_by_time_range c (combine day time_min) (combine day time_max)"
  define ts where "ts = sort_key start timed"
  have ne: "\<not> (timed = [] \<and> ad = [] \<and> \<not> sad)"
    using assms(1) by (simp add: ad_def timed_def)
  obtain col' where x: "extend_events e width day (col @ [style name True]) (ad @ ts) = Inr col'"
  proof (cases "extend_events e width day (col @ [style name True]) (ad @ ts)")
    case (Inl err)
    then have "width \<le> 0" using extend_events_Inl by blast
    then have "timed = [] \<and> ad = []" using assms(2) by (simp add: ad_def timed_def)
    then have "extend_events e width day (col @ [style name True]) (ad @ ts)
        = Inr (col @ [style name True])"
      by (simp add: ts_def)
    then show ?thesis using Inl by simp
  next
    case (Inr col')
    then show ?thesis using that by blast
  qed
  have c: "col' = (col @ [style name True]) @ concat (map (event_lines e width day) (ad @ ts))"
    using x by (rule extend_events_Inr)
  have "agenda_loop e c width sad (col, evs) ((day, name) # rest) =
      agenda_loop e c width sad (col', Some ts) rest"
    using ne x by (auto simp add: ad_def timed_def ts_def Let_def)
  then have step: "agenda_loop e c width sad (col, evs) ((day, name) # rest) =
      agenda_loop e c width sad
        (col @ style name True # concat (map (event_lines e width day) (ad @ ts)), Some ts) rest"
    using c by simp
  have s: "sorted (map start ts)" by (simp add: ts_def)
  have m: "mset ts = mset timed" by (simp add: ts_def)
  have st: "filter (\<lambda>x. start x = k) ts = filter (\<lambda>x. start x = k) timed" for k
    unfolding ts_def by (rule sort_key_stable)
  from step s m st show ?thesis unfolding ad_def timed_def by blast
qed

theorem agenda_loop_day_order_witness:
  "\<not> (get_datetime_by_time_range example_collection (combine 735332 time_min)
         (combine 735332 time_max) = [] \<and>
       get_allday_by_time_range example_collection 735332 = [] \<and> \<not> False) \<and>
   (\<exists>ts. agenda_loop example_env example_collection 45 False ([], None)
            [(735332, ''09.04.2014'')] =
          agenda_loop example_env example_collection 45 False
            ([] @ style ''09.04.2014'' True #
               concat (map (event_lines example_env 45 735332)
                 (get_allday_by_time_range example_collection 735332 @ ts)), Some ts) [] \<and>
          sorted (map start ts) \<and>
          mset ts = mset (get_datetime_by_time_range example_collection
                            (combine 735332 time_min) (combine 735332 time_max))) \<and>
   agenda_loop example_env example_collection 45 False ([], None) [(735332, ''09.04.2014'')]
   = Inr [style ''09.04.2014'' True, colored ''Holiday'' ''dark green'',
           colored ''08:00-09:00: Breakfast'' ''dark blue'',
           colored ''09:30-10:30: An Event'' ''dark blue'',
           colored ''09:30-11:00: Another Event'' ''dark red'']"
proof -
  have h1: "\<not> (get_datetime_by_time_range example_collection (combine 735332 time_min)
         (combine 735332 time_max) = [] \<and>
       get_allday_by_time_range example_collection 735332 = [] \<and> \<not> False)"
    by (simp add: example_collection_def)
  have h2: "(0 :: int) < 45 \<or>
      (get_datetime_by_time_range example_collection (combine 735332 time_min)
         (combine 735332 time_max) = [] \<and>
       get_allday_by_time_range example_collection 735332 = [])"
    by simp
  have v: "agenda_loop example_env example_collection 45 False ([], None)
      [(735332, ''09.04.2014'')]
   = Inr [style ''09.04.2014'' True, colored ''Holiday'' ''dark green'',
           colored ''08:00-09:00: Breakfast'' ''dark blue'',
           colored ''09:30-10:30: An Event'' ''dark blue'',
           colored ''09:30-11:00: Another Event'' ''dark red'']"
    by code_simp
  from agenda_loop_day_order [OF h1 h2, of example_env "[]" None "''09.04.2014''" "[]"]
  have "\<exists>ts. agenda_loop example_env example_collection 45 False ([], None)
            [(735332, ''09.04.2014'')] =
          agenda_loop example_env example_collection 45 False
            ([] @ style ''09.04.2014'' True #
               concat (map (event_lines example_env 45 735332)
                 (get_allday_by_time_range example_collection 735332 @ ts)), Some ts) [] \<and>
          sorted (map start ts) \<and>
          mset ts = mset (get_datetime_by_time_range example_collection
                            (combine 735332 time_min) (combine 735332 time_max))"
    by blast
  then show ?thesis using h1 v by blast
qed

text \<open>
  C6. With both \<open>days\<close> and \<open>events\<close> given, \<^verbatim>\<open>get_agenda\<close> fails on its
  assertion and leaves the log as it was; when \<open>days\<close> is \<^verbatim>\<open>None\<close> or \<open>events\<close>
  is \<^verbatim>\<open>None\<close> it never ends on the assertion.
\<close>

theorem get_agenda_assertion:
  "get_agenda e c loc dates (Some n) (Some evs) width sad lg = (Inl AssertionError, lg) \<and>
   fst (get_agenda e c loc dates None events width sad lg) \<noteq> Inl AssertionError \<and>
   fst (get_agenda e c loc dates days None width sad lg) \<noteq> Inl AssertionError"
proof -
  have a: "fst (get_agenda e c loc dates d ev width sad lg) \<noteq> Inl AssertionError"
    if "\<not> (d \<noteq> None \<and> ev \<noteq> None)" for d ev
  proof (cases "resolve_dates e loc dates")
    case (Inl err)
    then show ?thesis using get_agenda_unparsed [OF that Inl, of c width sad lg] by simp
  next
    case (Inr ds)
    show ?thesis
    proof (cases "labelled_days e loc ds (default_days d)")
      case (Inl err)
      then show ?thesis using get_agenda_overflow [OF that Inr Inl, of c width sad lg] by simp
    next
      case dl: (Inr daylist)
      show ?thesis
      proof (cases "agenda_loop e c width sad ([], ev) daylist")
        case (Inl err)
        then have "err = ValueError" using agenda_loop_Inl by blast
        then show ?thesis
          using Inl get_agenda_resolved [OF that Inr dl, of c width sad lg] by simp
      next
        case r: (Inr col)
        then show ?thesis using get_agenda_resolved [OF that Inr dl, of c width sad lg] by simp
      qed
    qed
  qed
  have "get_agenda e c loc dates (Some n) (Some evs) width sad lg = (Inl AssertionError, lg)"
    by (simp add: get_agenda_def)
  moreover have "fst (get_agenda e c loc dates None events width sad lg) \<noteq> Inl AssertionError"
    by (rule a) simp
  moreover have "fst (get_agenda e c loc dates days None width sad lg) \<noteq> Inl AssertionError"
    by (rule a) simp
  ultimately show ?thesis by simp
qed

text \<open>
  C7, as stated, fails. The all-day event \<open>Holiday\<close> has a description of 10 columns,
  its summary followed by three blanks; at width 8 \<^verbatim>\<open>textwrap.wrap\<close> drops the
  trailing whitespace and gives the one segment \<open>Holiday\<close>, and \<^verbatim>\<open>get_agenda\<close>
  emits one line for it, not two. Whitespace before the text goes the same way: three
  blanks and \<open>abc\<close> are 6 columns and give one segment at width 4. And at width 0 the
  description of 21 columns of the timed event is not split at all:
  \<^verbatim>\<open>textwrap.wrap\<close> raises \<^verbatim>\<open>ValueError\<close>.
\<close>

theorem wrap_trailing_space_counterexample:
  "compact holiday 735332 = ''Holiday   '' \<and>
   (8 :: int) < int (length (compact holiday 735332)) \<and>
   wrap example_env (compact holiday 735332) 8 = Inr [''Holiday''] \<and>
   get_agenda example_env example_collection example_locale
     (Some [Date 735332]) (Some 1) None 8 False []
   = (Inr [style ''09.04.2014'' True, colored ''Holiday'' ''dark green'',
           colored ''08:00-'' ''dark blue'', colored ''09:00: B'' ''dark blue'',
           colored ''reakfast'' ''dark blue'',
           colored ''09:30-'' ''dark blue'', colored ''10:30:'' ''dark blue'',
           colored ''An Event'' ''dark blue'',
           colored ''09:30-'' ''dark red'', colored ''11:00:'' ''dark red'',
           colored ''Another'' ''dark red'', colored ''Event'' ''dark red''], []) \<and>
   (4 :: int) < int (length ''   abc'') \<and>
   wrap example_env ''   abc'' 4 = Inr [''abc''] \<and>
   (0 :: int) < int (length (compact an_event 735332)) \<and>
   wrap example_env (compact an_event 735332) 0 = Inl ValueError"
  by code_simp

text \<open>
  C7, amended. Every coloured line that \<^verbatim>\<open>get_agenda\<close> returns is no longer than
  the width. For a width of at least 1 the description of an event is wrapped into
  segments, one coloured line each, none longer than the width; and there are at least
  two of them when the description, tabs expanded and the whitespace at its two ends set
  aside, is longer than the width. For a width that is not positive
  \<^verbatim>\<open>textwrap.wrap\<close> raises \<^verbatim>\<open>ValueError\<close>.
\<close>

theorem wrapped_segments_within_width:
  "(get_agenda e c loc dates days events width sad lg = (Inr lines, lg') \<longrightarrow>
      list_all (fits width) lines) \<and>
   (0 < width \<longrightarrow>
      (\<exists>desc. wrap e (compact ev day) width = Inr desc \<and>
         event_lines e width day ev = map (\<lambda>d. colored d (color ev)) desc \<and>
         list_all (\<lambda>d. int (length d) \<le> width) desc \<and>
         (width < int (length (strip (munge_whitespace (compact ev day)))) \<longrightarrow>
            2 \<le> length desc))) \<and>
   (width \<le> 0 \<longrightarrow> wrap e (compact ev day) width = Inl ValueError)"
proof -
  have a: "list_all (fits width) lines"
    if "get_agenda e c loc dates days events width sad lg = (Inr lines, lg')"
    using that by (rule get_agenda_fit)
  have b: "\<exists>desc. wrap e (compact ev day) width = Inr desc \<and>
         event_lines e width day ev = map (\<lambda>d. colored d (color ev)) desc \<and>
         list_all (\<lambda>d. int (length d) \<le> width) desc \<and>
         (width < int (length (strip (munge_whitespace (compact ev day)))) \<longrightarrow>
            2 \<le> length desc)"
    if w: "0 < width"
  proof -
    define desc where "desc = wrap_lines (nat width) (split_chunks e (compact ev day)) []"
    have r: "wrap e (compact ev day) width = Inr desc"
      using w by (simp add: wrap_positive desc_def)
    have l: "event_lines e width day ev = map (\<lambda>d. colored d (color ev)) desc"
      using r by (rule event_lines_wrap)
    have f: "list_all (\<lambda>d. int (length d) \<le> width) desc"
      using r wrap_Inr_bound by blast
    have t: "2 \<le> length desc"
      if n: "width < int (length (strip (munge_whitespace (compact ev day))))"
    proof -
      have "nat width < length (strip (concat (split_chunks e (compact ev day))))"
        using n w by (simp add: concat_split_chunks)
      moreover have "1 \<le> nat width" using w by simp
      ultimately show ?thesis unfolding desc_def by (intro wrap_lines_two)
    qed
    from r l f t show ?thesis by blast
  qed
  have c: "wrap e (compact ev day) width = Inl ValueError" if "width \<le> 0"
    using that by (simp add: wrap_cases)
  from a b c show ?thesis by blast
qed

theorem wrapped_segments_within_width_witness:
  "get_agenda example_env example_collection example_locale
     (Some [Date 735332]) (Some 1) None 8 False []
   = (Inr [style ''09.04.2014'' True, colored ''Holiday'' ''dark green'',
           colored ''08:00-'' ''dark blue'', colored ''09:00: B'' ''dark blue'',
           colored ''reakfast'' ''dark blue'',
           colored ''09:30-'' ''dark blue'', colored ''10:30:'' ''dark blue'',
           colored ''An Event'' ''dark blue'',
           colored ''09:30-'' ''dark red'', colored ''11:00:'' ''dark red'',
           colored ''Another'' ''dark red'', colored ''Event'' ''dark red''], []) \<and>
   list_all (fits 8)
     [style ''09.04.2014'' True, colored ''Holiday'' ''dark green'',
           colored ''08:00-'' ''dark blue'', colored ''09:00: B'' ''dark blue'',
           colored ''reakfast'' ''dark blue'',
           colored ''09:30-'' ''dark blue'', colored ''10:30:'' ''dark blue'',
           colored ''An Event'' ''dark blue'',
           colored ''09:30-'' ''dark red'', colored ''11:00:'' ''dark red'',
           colored ''Another'' ''dark red'', colored ''Event'' ''dark red''] \<and>
   (0 :: int) < 20 \<and>
   20 < int (length (strip (munge_whitespace (compact an_event 735332)))) \<and>
   (\<exists>desc. wrap example_env (compact an_event 735332) 20 = Inr desc \<and>
      event_lines example_env 20 735332 an_event = map (\<lambda>d. colored d (color an_event)) desc \<and>
      list_all (\<lambda>d. int (length d) \<le> 20) desc \<and> 2 \<le> length desc) \<and>
   wrap example_env (compact an_event 735332) 20 = Inr [''09:30-10:30: An'', ''Event''] \<and>
   wrap example_env ''aaaa bbbb cc'' 10 = Inr [''aaaa bbbb'', ''cc'']"
proof -
  have h: "get_agenda example_env example_collection example_locale
     (Some [Date 735332]) (Some 1) None 8 False []
   = (Inr [style ''09.04.2014'' True, colored ''Holiday'' ''dark green'',
           colored ''08:00-'' ''dark blue'', colored ''09:00: B'' ''dark blue'',
           colored ''reakfast'' ''dark blue'',
           colored ''09:30-'' ''dark blue'', colored ''10:30:'' ''dark blue'',
           colored ''An Event'' ''dark blue'',
           colored ''09:30-'' ''dark red'', colored ''11:00:'' ''dark red'',
           colored ''Another'' ''dark red'', colored ''Event'' ''dark red''], [])"
    by code_simp
  have w: "(0 :: int) < 20" by simp
  have n: "20 < int (length (strip (munge_whitespace (compact an_event 735332))))"
    by code_simp
  have v: "wrap example_env (compact an_event 735332) 20 = Inr [''09:30-10:30: An'', ''Event'']"
    by code_simp
  have v2: "wrap example_env ''aaaa bbbb cc'' 10 = Inr [''aaaa bbbb'', ''cc'']"
    by code_simp
  note t = wrapped_segments_within_width [of example_env example_collection example_locale
      "Some [Date 735332]" "Some 1" None 8 False "[]" _ "[]"]
  note u = wrapped_segments_within_width [of example_env example_collection example_locale
      "Some [Date 735332]" "Some 1" None 20 False "[]" _ "[]" an_event 735332]
  have a: "list_all (fits 8)
     [style ''09.04.2014'' True, colored ''Holiday'' ''dark green'',
           colored ''08:00-'' ''dark blue'', colored ''09:00: B'' ''dark blue'',
           colored ''reakfast'' ''dark blue'',
           colored ''09:30-'' ''dark blue'', colored ''10:30:'' ''dark blue'',
           colored ''An Event'' ''dark blue'',
           colored ''09:30-'' ''dark red'', colored ''11:00:'' ''dark red'',
           colored ''Another'' ''dark red'', colored ''Event'' ''dark red'']"
    using t h by blast
  have b: "\<exists>desc. wrap example_env (compact an_event 735332) 20 = Inr desc \<and>
      event_lines example_env 20 735332 an_event = map (\<lambda>d. colored d (color an_event)) desc \<and>
      list_all (\<lambda>d. int (length d) \<le> 20) desc \<and> 2 \<le> length desc"
    using u w n by blast
  from h a w n b v v2 show ?thesis by blast
qed

text \<open>
  C8. When the free-text parser meets a parse error, the error is logged and the process
  exits with status 1: the log holds the message of the error after what it held before,
  nothing is echoed and the collection is untouched. The logging is that of
  \<^verbatim>\<open>aux.construct_event\<close> as the specification describes it; the handler of lines
  166 and 167 then exits without another word.
\<close>

theorem NewFromString_fatal_exit:
  assumes "parse_event a date_list location repeat (conf_locale cf) = Inl msg"
  shows "NewFromString a cf date_list location repeat p =
      (Some (SystemExit 1), p\<lparr>logged := logged p @ [msg]\<rparr>) \<and>
    logged (snd (NewFromString a cf date_list location repeat p)) = logged p @ [msg] \<and>
    echoed (snd (NewFromString a cf date_list location repeat p)) = echoed p \<and>
    store (snd (NewFromString a cf date_list location repeat p)) = store p"
  using assms by (simp add: NewFromString_def construct_event_def)

theorem NewFromString_fatal_exit_witness:
  "parse_event failing_parser [''tomorrow''] None None (conf_locale example_conf)
     = Inl ''Cannot understand tomorrow'' \<and>
   NewFromString failing_parser example_conf [''tomorrow''] None None example_process =
     (Some (SystemExit 1),
      example_process\<lparr>logged := [''Cannot understand tomorrow'']\<rparr>) \<and>
   echoed (snd (NewFromString failing_parser example_conf [''tomorrow''] None None
     example_process)) = []"
proof -
  have h: "parse_event failing_parser [''tomorrow''] None None (conf_locale example_conf)
     = Inl ''Cannot understand tomorrow''"
    by (simp add: failing_parser_def)
  from NewFromString_fatal_exit [OF h, of example_process]
  show ?thesis using h by (simp add: example_process_def)
qed


text \<open>
  C10. With \<open>days\<close> left at \<^verbatim>\<open>None\<close>, the outcome of \<^verbatim>\<open>get_agenda\<close> (result
  and log) does not depend on the \<open>events\<close> argument: the loop assigns the variable
  before it reads it.
\<close>

theorem get_agenda_events_ignored:
  "get_agenda e c loc dates None events1 width sad lg =
   get_agenda e c loc dates None events2 width sad lg"
proof -
  have l: "agenda_loop e c width sad ([], events1) daylist =
      agenda_loop e c width sad ([], events2) daylist" for daylist
    by (rule agenda_loop_events)
  show ?thesis
  proof (cases "resolve_dates e loc dates")
    case (Inl msg)
    then show ?thesis by (simp add: get_agenda_def Let_def)
  next
    case (Inr ds)
    then show ?thesis
      by (cases "labelled_days e loc ds (default_days None)")
         (simp_all add: get_agenda_def Let_def l)
  qed
qed

end
